theory Spec2Isabelle
  imports Complex_Main "HOL-Library.Multiset"
begin

section \<open>Card model (wizard_env.py: classes CardValue, CardSuit, Card)\<close>

datatype CardValue =
    JESTER | ONE | TWO | THREE | FOUR | FIVE | SIX | SEVEN
  | EIGHT | NINE | TEN | ELEVEN | TWELVE | THIRTEEN | WIZARD

datatype CardSuit = HEARTS | DIAMONDS | CLUBS | SPADES

text \<open>Every exception the engine can raise. The first five are Python
  \<open>ValueError\<close>s, told apart by the statement that raises them.\<close>

datatype error =
    EnumValueError       \<comment> \<open>\<open>CardValue(n)\<close> / \<open>CardSuit(n)\<close> on a number that is no member\<close>
  | InvalidBid           \<comment> \<open>\<open>_process_bid\<close>: bid not in the valid bids\<close>
  | BiddingPhasePlay     \<comment> \<open>\<open>_process_play\<close>: phase is not 1\<close>
  | InvalidCardIndex     \<comment> \<open>\<open>_process_play\<close>: card not found in the agent's hand\<close>
  | EmptyChoice          \<comment> \<open>\<open>np_random.choice\<close> on an empty list\<close>
  | StopIteration        \<comment> \<open>\<open>next\<close> on an exhausted generator\<close>
  | IndexError           \<comment> \<open>array index out of bounds\<close>
  | NonTermination       \<comment> \<open>a \<open>while\<close> loop that never exits\<close>

fun value_of :: "CardValue \<Rightarrow> int" where
  "value_of JESTER = 0"
| "value_of ONE = 1"
| "value_of TWO = 2"
| "value_of THREE = 3"
| "value_of FOUR = 4"
| "value_of FIVE = 5"
| "value_of SIX = 6"
| "value_of SEVEN = 7"
| "value_of EIGHT = 8"
| "value_of NINE = 9"
| "value_of TEN = 10"
| "value_of ELEVEN = 11"
| "value_of TWELVE = 12"
| "value_of THIRTEEN = 13"
| "value_of WIZARD = 14"

fun suit_value :: "CardSuit \<Rightarrow> int" where
  "suit_value HEARTS = 0"
| "suit_value DIAMONDS = 1"
| "suit_value CLUBS = 2"
| "suit_value SPADES = 3"

text \<open>The enum constructors called on a number: \<open>CardValue(n)\<close>, \<open>CardSuit(n)\<close>.\<close>

definition CardValue_of_int :: "int \<Rightarrow> error + CardValue" where
  "CardValue_of_int n =
     (if n = 0 then Inr JESTER else if n = 1 then Inr ONE else if n = 2 then Inr TWO
      else if n = 3 then Inr THREE else if n = 4 then Inr FOUR else if n = 5 then Inr FIVE
      else if n = 6 then Inr SIX else if n = 7 then Inr SEVEN else if n = 8 then Inr EIGHT
      else if n = 9 then Inr NINE else if n = 10 then Inr TEN else if n = 11 then Inr ELEVEN
      else if n = 12 then Inr TWELVE else if n = 13 then Inr THIRTEEN
      else if n = 14 then Inr WIZARD else Inl EnumValueError)"

definition CardSuit_of_int :: "int \<Rightarrow> error + CardSuit" where
  "CardSuit_of_int n =
     (if n = 0 then Inr HEARTS else if n = 1 then Inr DIAMONDS
      else if n = 2 then Inr CLUBS else if n = 3 then Inr SPADES
      else Inl EnumValueError)"

datatype Card = Card (cvalue: CardValue) (csuit: CardSuit)

definition NUM_PLAYERS :: nat where "NUM_PLAYERS = 4"
definition DECK_SIZE :: nat where "DECK_SIZE = 60"
definition NUM_SUITS :: nat where "NUM_SUITS = 4"
definition MAX_ROUND :: nat where "MAX_ROUND = DECK_SIZE div NUM_PLAYERS"

subsection \<open>Encoding: \<open>Card.to_vector\<close> and \<open>Card.from_vector_idx\<close>\<close>

text \<open>The slot that \<open>to_vector\<close> sets to 1.\<close>

definition card_index :: "Card \<Rightarrow> int" where
  "card_index c =
     (if cvalue c = WIZARD then 52 + suit_value (csuit c)
      else if cvalue c = JESTER then 56 + suit_value (csuit c)
      else suit_value (csuit c) * 13 + (value_of (cvalue c) - 1))"

text \<open>A numpy vector is a list of integers; \<open>np.zeros(n)\<close> is \<open>zeros n\<close>.\<close>

definition zeros :: "nat \<Rightarrow> int list" where
  "zeros n = replicate n 0"

text \<open>\<open>to_vector\<close> writes slot \<open>card_index c\<close>, which lies in \<open>0..59\<close> for every
  card (lemma \<open>card_index_range\<close>); the engine only calls it with
  \<open>vector_size = DECK_SIZE\<close>. A write outside the vector is numpy's IndexError.\<close>

definition to_vector :: "Card \<Rightarrow> nat \<Rightarrow> error + int list" where
  "to_vector c vector_size =
     (if 0 \<le> card_index c \<and> card_index c < int vector_size
      then Inr ((zeros vector_size)[nat (card_index c) := 1])
      else Inl IndexError)"

text \<open>\<open>card.to_vector(self.DECK_SIZE)\<close>, the only way the engine calls \<open>to_vector\<close>;
  lemma \<open>to_vector_DECK_SIZE\<close> shows that it is \<open>Inr (vec card)\<close>.\<close>

definition vec :: "Card \<Rightarrow> int list" where
  "vec c = (zeros DECK_SIZE)[nat (card_index c) := 1]"

definition from_vector_idx :: "int \<Rightarrow> error + Card" where
  "from_vector_idx vector_idx =
     (if vector_idx < 52 then
        (case CardValue_of_int (vector_idx mod 13 + 1) of
           Inl e \<Rightarrow> Inl e
         | Inr v \<Rightarrow> (case CardSuit_of_int (vector_idx div 13) of
                       Inl e \<Rightarrow> Inl e
                     | Inr s \<Rightarrow> Inr (Card v s)))
      else if vector_idx < 56 then
        (case CardSuit_of_int (vector_idx - 52) of
           Inl e \<Rightarrow> Inl e
         | Inr s \<Rightarrow> Inr (Card WIZARD s))
      else
        (case CardSuit_of_int (vector_idx - 56) of
           Inl e \<Rightarrow> Inl e
         | Inr s \<Rightarrow> Inr (Card JESTER s)))"

section \<open>Random sources\<close>

text \<open>A generator is the infinite sequence of its raw draws together with the number
  of draws consumed so far. Two generators are used by the engine: the environment's
  own \<open>self.np_random\<close>, which \<open>reset(seed=...)\<close> reseeds, and the process-wide
  generator of Python's \<open>random\<close> module, which \<open>random.shuffle\<close> draws from.\<close>

type_synonym rng = "(nat \<Rightarrow> nat) \<times> nat"

definition draw :: "rng \<Rightarrow> nat \<times> rng" where
  "draw g = (fst g (snd g), (fst g, Suc (snd g)))"

text \<open>\<open>np_random.choice(xs)\<close>: one bounded draw selects the element.\<close>

definition choice :: "rng \<Rightarrow> 'a list \<Rightarrow> error + ('a \<times> rng)" where
  "choice g xs =
     (if xs = [] then Inl EmptyChoice
      else (case draw g of (r, g') \<Rightarrow> Inr (xs ! (r mod length xs), g')))"

text \<open>\<open>random.shuffle(x)\<close> of the standard library:
  \<^verbatim>\<open>for i in reversed(range(1, len(x))): j = randbelow(i + 1); x[i], x[j] = x[j], x[i]\<close>\<close>

fun shuffle_loop :: "nat \<Rightarrow> rng \<Rightarrow> 'a list \<Rightarrow> 'a list \<times> rng" where
  "shuffle_loop 0 g xs = (xs, g)"
| "shuffle_loop (Suc i) g xs =
     (case draw g of (r, g') \<Rightarrow>
        (let j = r mod (Suc i + 1)
         in shuffle_loop i g' (xs[Suc i := xs ! j, j := xs ! Suc i])))"

definition shuffle :: "rng \<Rightarrow> 'a list \<Rightarrow> 'a list \<times> rng" where
  "shuffle g xs = shuffle_loop (length xs - 1) g xs"

section \<open>The environment (class WizardEnv)\<close>

text \<open>\<open>state["lead_suit"]\<close> holds an integer where \<open>reset\<close>, \<open>_process_play\<close> and
  \<open>_finish_trick\<close> write it (\<open>card.suit.value\<close> or \<open>NUM_SUITS\<close>), and a \<open>CardSuit\<close>
  member where \<open>_simulate_play\<close> writes it (\<open>card.suit\<close>). \<open>CardSuit\<close> is a plain
  \<open>Enum\<close>, so a member is not equal to any integer.\<close>

datatype lead_suit_value = SuitIndex int | SuitMember CardSuit

text \<open>The attributes of a \<open>WizardEnv\<close> instance. The fields from \<open>st_hand\<close> to
  \<open>valid_actions\<close> are the entries of the dict \<open>self.state\<close>. Vectors hold 0/1
  integers (a numpy boolean is its integer). Scores, bids and tricks are \<open>int32\<close>
  in the source; every value the engine stores stays far below \<open>2^31\<close>, so they are
  unbounded integers here. \<open>py_random\<close> is the state of the \<open>random\<close> module, and
  \<open>deck\<close> is the local variable \<open>deck\<close> of \<open>_deal_cards\<close> as the last deal left it
  (the undealt remainder), kept to state the partition of the cards.\<close>

record env =
  round_starter :: nat
  trick_leader :: nat
  hands :: "Card list list"
  trump_card :: "Card option"
  cards_played_in_trick :: "Card list"
  st_hand :: "int list"
  st_trump_card :: "int list"
  st_cards_played_in_trick :: "int list"
  st_cards_played_in_round :: "int list"
  player_bids :: "int list"
  player_tricks :: "int list"
  player_scores :: "int list"
  round_number :: int
  phase :: int
  lead_suit :: lead_suit_value
  position_in_trick :: int
  valid_actions :: "int list"
  np_random :: rng
  py_random :: rng
  deck :: "Card list"

text \<open>The observation returned by \<open>reset\<close> and \<open>step\<close> is the dict \<open>self.state\<close>.\<close>

record obs =
  obs_hand :: "int list"
  obs_trump_card :: "int list"
  obs_cards_played_in_trick :: "int list"
  obs_cards_played_in_round :: "int list"
  obs_player_bids :: "int list"
  obs_player_tricks :: "int list"
  obs_player_scores :: "int list"
  obs_round_number :: int
  obs_phase :: int
  obs_lead_suit :: lead_suit_value
  obs_position_in_trick :: int
  obs_valid_actions :: "int list"

definition observation :: "env \<Rightarrow> obs" where
  "observation s =
     \<lparr>obs_hand = st_hand s, obs_trump_card = st_trump_card s,
      obs_cards_played_in_trick = st_cards_played_in_trick s,
      obs_cards_played_in_round = st_cards_played_in_round s,
      obs_player_bids = player_bids s, obs_player_tricks = player_tricks s,
      obs_player_scores = player_scores s, obs_round_number = round_number s,
      obs_phase = phase s, obs_lead_suit = lead_suit s,
      obs_position_in_trick = position_in_trick s,
      obs_valid_actions = valid_actions s\<rparr>"

subsection \<open>Vector arithmetic of numpy\<close>

definition vadd :: "int list \<Rightarrow> int list \<Rightarrow> int list" where
  "vadd a b = map2 (+) a b"

text \<open>\<open>np.sum(vs, axis=0)\<close> over a non-empty list of 60-slot vectors.\<close>

definition vec_sum :: "int list list \<Rightarrow> int list" where
  "vec_sum vs = foldl vadd (zeros DECK_SIZE) vs"

definition vor :: "int list \<Rightarrow> int list \<Rightarrow> int list" where
  "vor a b = map2 (\<lambda>x y. if x \<noteq> 0 \<or> y \<noteq> 0 then 1 else 0) a b"

text \<open>\<open>np.logical_or.reduce(vs)\<close> over a non-empty list of 60-slot vectors.\<close>

definition logical_or_reduce :: "int list list \<Rightarrow> int list" where
  "logical_or_reduce vs = foldl vor (zeros DECK_SIZE) vs"

text \<open>\<open>v[idxs] = 1\<close> with a list of indices; a negative index counts from the end.\<close>

fun set_ones :: "int list \<Rightarrow> int list \<Rightarrow> error + int list" where
  "set_ones [] v = Inr v"
| "set_ones (b # bs) v =
     (if 0 \<le> b \<and> b < int (length v) then set_ones bs (v[nat b := 1])
      else if - int (length v) \<le> b \<and> b < 0 then set_ones bs (v[nat (int (length v) + b) := 1])
      else Inl IndexError)"

subsection \<open>Deck and dealer\<close>

definition numeric_values :: "CardValue list" where
  "numeric_values =
     [ONE, TWO, THREE, FOUR, FIVE, SIX, SEVEN, EIGHT, NINE, TEN, ELEVEN, TWELVE, THIRTEEN]"

definition suit_cards :: "CardSuit \<Rightarrow> Card list" where
  "suit_cards suit =
     map (\<lambda>v. Card v suit) numeric_values @ [Card WIZARD suit, Card JESTER suit]"

definition create_deck :: "Card list" where
  "create_deck = concat (map suit_cards [HEARTS, DIAMONDS, CLUBS, SPADES])"

text \<open>The inner loop of \<open>_deal_cards\<close>: \<open>deck.pop()\<close> takes the last card.\<close>

fun deal_players :: "nat list \<Rightarrow> Card list \<Rightarrow> Card list list \<Rightarrow> Card list \<times> Card list list" where
  "deal_players [] d hs = (d, hs)"
| "deal_players (player # ps) d hs =
     (if d \<noteq> [] then deal_players ps (butlast d) (hs[player := hs ! player @ [last d]])
      else deal_players ps d hs)"

fun deal_rounds :: "nat \<Rightarrow> Card list \<Rightarrow> Card list list \<Rightarrow> Card list \<times> Card list list" where
  "deal_rounds 0 d hs = (d, hs)"
| "deal_rounds (Suc n) d hs =
     (case deal_players [0..<NUM_PLAYERS] d hs of (d', hs') \<Rightarrow> deal_rounds n d' hs')"

definition deal_cards :: "env \<Rightarrow> env" where
  "deal_cards s =
     (case shuffle (py_random s) create_deck of (d0, g) \<Rightarrow>
      (case deal_rounds (nat (round_number s)) d0 (replicate NUM_PLAYERS []) of (d1, hs) \<Rightarrow>
        (let tr = (if d1 \<noteq> [] then Some (last d1) else None);
             d2 = (if d1 \<noteq> [] then butlast d1 else d1)
         in s\<lparr>hands := hs, trump_card := tr,
               st_hand := vec_sum (map vec (hs ! 0)),
               st_trump_card := (case tr of Some c \<Rightarrow> vec c | None \<Rightarrow> zeros DECK_SIZE),
               py_random := g, deck := d2\<rparr>)))"

subsection \<open>Bid resolver\<close>

definition get_valid_bids :: "env \<Rightarrow> int list" where
  "get_valid_bids s =
     (let valid_bids = [0..round_number s];
          num_bids = length (filter (\<lambda>b. b \<noteq> 0) (player_bids s))
      in if num_bids = NUM_PLAYERS - 1 then
           (let total_bids = sum_list (player_bids s);
                forbidden_bid = round_number s - total_bids
            in if forbidden_bid \<ge> 0 \<and> forbidden_bid \<le> round_number s
               then remove1 forbidden_bid valid_bids else valid_bids)
         else valid_bids)"

definition process_bid :: "env \<Rightarrow> int \<Rightarrow> error + env" where
  "process_bid s bid =
     (if bid \<notin> set (get_valid_bids s) then Inl InvalidBid
      else Inr (s\<lparr>player_bids := (player_bids s)[0 := bid]\<rparr>))"

subsection \<open>Play resolver\<close>

text \<open>A variable \<open>card\<close> of the source is \<open>crd\<close> here. The search loop of \<open>_is_valid_play\<close> for the lead suit.\<close>

definition find_lead_suit :: "Card list \<Rightarrow> CardSuit option" where
  "find_lead_suit cs =
     map_option csuit (find (\<lambda>c. cvalue c \<noteq> JESTER \<and> cvalue c \<noteq> WIZARD) cs)"

definition is_valid_play :: "env \<Rightarrow> Card \<Rightarrow> nat \<Rightarrow> bool" where
  "is_valid_play s crd player_idx =
     (if crd \<notin> set (hands s ! player_idx) then False
      else if length (cards_played_in_trick s) = 0 then True
      else if cvalue crd = WIZARD \<or> cvalue crd = JESTER then True
      else (case find_lead_suit (cards_played_in_trick s) of
              None \<Rightarrow> True
            | Some lead \<Rightarrow>
                if list_ex (\<lambda>c. csuit c = lead) (hands s ! player_idx)
                then csuit crd = lead else True))"

definition update_valid_actions :: "env \<Rightarrow> error + env" where
  "update_valid_actions s =
     (if phase s = 0 then
        (case set_ones (get_valid_bids s) (zeros DECK_SIZE) of
           Inl e \<Rightarrow> Inl e
         | Inr v \<Rightarrow> Inr (s\<lparr>valid_actions := v\<rparr>))
      else
        Inr (s\<lparr>valid_actions :=
               foldl vadd (zeros DECK_SIZE)
                 (map vec (filter (\<lambda>crd. is_valid_play s crd 0) (hands s ! 0)))\<rparr>))"

fun find_idx :: "('a \<Rightarrow> bool) \<Rightarrow> 'a list \<Rightarrow> nat option" where
  "find_idx P [] = None"
| "find_idx P (x # xs) = (if P x then Some 0 else map_option Suc (find_idx P xs))"

definition vector_idx_to_hand_idx :: "env \<Rightarrow> int \<Rightarrow> error + nat option" where
  "vector_idx_to_hand_idx s vector_idx =
     (case from_vector_idx vector_idx of
        Inl e \<Rightarrow> Inl e
      | Inr target_card \<Rightarrow>
          Inr (find_idx (\<lambda>crd. csuit crd = csuit target_card \<and> cvalue crd = cvalue target_card)
                 (hands s ! 0)))"

definition process_play :: "env \<Rightarrow> int \<Rightarrow> error + env" where
  "process_play s action =
     (if phase s \<noteq> 1 then Inl BiddingPhasePlay
      else (case vector_idx_to_hand_idx s action of
              Inl e \<Rightarrow> Inl e
            | Inr None \<Rightarrow> Inl InvalidCardIndex
            | Inr (Some hand_idx) \<Rightarrow>
                (let crd = hands s ! 0 ! hand_idx;
                     hand0 = take hand_idx (hands s ! 0) @ drop (Suc hand_idx) (hands s ! 0);
                     trick = cards_played_in_trick s @ [crd];
                     s1 = s\<lparr>hands := (hands s)[0 := hand0],
                            cards_played_in_trick := trick,
                            st_cards_played_in_trick := vadd (st_cards_played_in_trick s) (vec crd),
                            st_cards_played_in_round := vadd (st_cards_played_in_round s) (vec crd),
                            st_hand := (if hand0 \<noteq> [] then logical_or_reduce (map vec hand0)
                                        else zeros DECK_SIZE)\<rparr>
                 in Inr (if length trick = 1
                         then s1\<lparr>lead_suit :=
                                   (if cvalue crd \<noteq> WIZARD \<and> cvalue crd \<noteq> JESTER
                                    then SuitIndex (suit_value (csuit crd))
                                    else SuitIndex (int NUM_SUITS))\<rparr>
                         else s1))))"

subsection \<open>Trick evaluator\<close>

definition cards_with_players :: "env \<Rightarrow> (Card \<times> nat) list" where
  "cards_with_players s =
     map (\<lambda>(i, crd). (crd, (trick_leader s + i) mod NUM_PLAYERS))
       (enumerate 0 (cards_played_in_trick s))"

text \<open>The comparison loop of \<open>_evaluate_trick\<close>, carrying \<open>winning_card\<close> and \<open>winner\<close>.\<close>

fun compare_loop :: "Card option \<Rightarrow> (Card \<times> nat) list \<Rightarrow> Card \<Rightarrow> nat \<Rightarrow> nat" where
  "compare_loop tr [] winning_card winner = winner"
| "compare_loop tr ((crd, player) # rest) winning_card winner =
     (if cvalue crd = JESTER then compare_loop tr rest winning_card winner
      else if tr \<noteq> None \<and> csuit crd = csuit (the tr) \<and> csuit winning_card \<noteq> csuit (the tr)
        then compare_loop tr rest crd player
      else if csuit crd = csuit winning_card \<and> value_of (cvalue crd) > value_of (cvalue winning_card)
        then compare_loop tr rest crd player
      else compare_loop tr rest winning_card winner)"

definition evaluate_trick :: "env \<Rightarrow> error + nat" where
  "evaluate_trick s =
     (let cwp = cards_with_players s
      in case find (\<lambda>(crd, player). cvalue crd = WIZARD) (rev cwp) of
           Some (crd, player) \<Rightarrow> Inr player
         | None \<Rightarrow>
             if list_all (\<lambda>(crd, _). cvalue crd = JESTER) cwp then Inr (trick_leader s)
             else (case find (\<lambda>(crd, player). cvalue crd \<noteq> JESTER) cwp of
                     None \<Rightarrow> Inl StopIteration
                   | Some (winning_card, winner) \<Rightarrow>
                       Inr (compare_loop (trump_card s) cwp winning_card winner)))"

subsection \<open>Opponent stepper\<close>

definition get_next_player :: "nat \<Rightarrow> nat" where
  "get_next_player current_player = (current_player + 1) mod NUM_PLAYERS"

definition simulate_play :: "nat \<Rightarrow> env \<Rightarrow> env" where
  "simulate_play player_idx s =
     (let valid_cards = filter (\<lambda>crd. is_valid_play s crd player_idx) (hands s ! player_idx)
      in if valid_cards \<noteq> [] then
           (case draw (np_random s) of (r, g) \<Rightarrow>
             (let crd = valid_cards ! (r mod length valid_cards);
                  s1 = (if lead_suit s = SuitIndex (int NUM_SUITS)
                           \<and> cvalue crd \<noteq> WIZARD \<and> cvalue crd \<noteq> JESTER
                        then s\<lparr>lead_suit := SuitMember (csuit crd)\<rparr> else s)
              in s1\<lparr>np_random := g,
                     hands := (hands s1)[player_idx := remove1 crd (hands s1 ! player_idx)],
                     cards_played_in_trick := cards_played_in_trick s1 @ [crd],
                     st_cards_played_in_trick := vadd (st_cards_played_in_trick s1) (vec crd),
                     st_cards_played_in_round := vadd (st_cards_played_in_round s1) (vec crd)\<rparr>))
         else s)"

text \<open>The bidding loop of \<open>_play_until_agent_turn\<close> over \<open>range(round_starter, NUM_PLAYERS)\<close>.\<close>

fun bids_before_agent :: "nat list \<Rightarrow> env \<Rightarrow> error + env" where
  "bids_before_agent [] s = Inr s"
| "bids_before_agent (i # rest) s =
     (case choice (np_random s) [0..round_number s] of
        Inl e \<Rightarrow> Inl e
      | Inr (bid, g) \<Rightarrow>
          if i < length (player_bids s)
          then bids_before_agent rest (s\<lparr>np_random := g, player_bids := (player_bids s)[i := bid]\<rparr>)
          else Inl IndexError)"

text \<open>The playing loop of \<open>_play_until_agent_turn\<close>:
  \<^verbatim>\<open>while current_player != 0: ...\<close>\<close>

function plays_before_agent :: "nat \<Rightarrow> env \<Rightarrow> env" where
  "plays_before_agent current_player s =
     (if current_player \<noteq> 0
      then plays_before_agent (get_next_player current_player) (simulate_play current_player s)
      else s)"
  by pat_completeness auto
termination
  by (relation "measure (\<lambda>(p, s). if p = 0 then 0 else if p < 4 then 4 - p else 5)")
     (auto simp: get_next_player_def NUM_PLAYERS_def, presburger)

declare plays_before_agent.simps [simp del]

definition play_until_agent_turn :: "env \<Rightarrow> error + env" where
  "play_until_agent_turn s =
     (if phase s = 0 then
        (case (if round_starter s \<noteq> 0
               then bids_before_agent [round_starter s..<NUM_PLAYERS] s else Inr s) of
           Inl e \<Rightarrow> Inl e
         | Inr s1 \<Rightarrow> update_valid_actions s1)
      else Inr (plays_before_agent (trick_leader s) s))"

subsection \<open>Scoring and round close\<close>

definition finish_trick :: "env \<Rightarrow> error + (env \<times> real)" where
  "finish_trick s =
     (case evaluate_trick s of
        Inl e \<Rightarrow> Inl e
      | Inr winner \<Rightarrow>
          (let reward = (if winner = 0
                         then (if player_tricks s ! 0 < player_bids s ! 0 then 2 / 10 else - (2 / 10))
                         else 0);
               s1 = s\<lparr>player_tricks := (player_tricks s)[winner := player_tricks s ! winner + 1],
                      trick_leader := winner,
                      position_in_trick := (4 - int winner) mod 4,
                      cards_played_in_trick := [],
                      st_cards_played_in_trick := map (\<lambda>_. 0) (st_cards_played_in_trick s),
                      lead_suit := SuitIndex (int NUM_SUITS)\<rparr>
           in case update_valid_actions s1 of
                Inl e \<Rightarrow> Inl e
              | Inr s2 \<Rightarrow> Inr (s2, reward)))"

text \<open>The scoring loop of \<open>_finish_round\<close> over \<open>range(NUM_PLAYERS)\<close>.\<close>

fun score_loop :: "nat list \<Rightarrow> env \<Rightarrow> real \<Rightarrow> env \<times> real" where
  "score_loop [] s reward = (s, reward)"
| "score_loop (i # rest) s reward =
     (let old_score = player_scores s ! i;
          new_score = (if player_tricks s ! i = player_bids s ! i
                       then old_score + (1 + 1 * player_bids s ! i)
                       else old_score - \<bar>player_bids s ! i - player_tricks s ! i\<bar>)
      in score_loop rest (s\<lparr>player_scores := (player_scores s)[i := new_score]\<rparr>)
           (if i = 0 then real_of_int (new_score - old_score) else reward))"

definition finish_round :: "env \<Rightarrow> error + (env \<times> real)" where
  "finish_round s =
     (case score_loop [0..<NUM_PLAYERS] s 0 of (s1, reward) \<Rightarrow>
        (let s2 = s1\<lparr>round_number := round_number s1 + 1,
                     phase := 0,
                     player_bids := map (\<lambda>_. 0) (player_bids s1),
                     player_tricks := map (\<lambda>_. 0) (player_tricks s1),
                     st_cards_played_in_round := map (\<lambda>_. 0) (st_cards_played_in_round s1),
                     round_starter := (round_starter s1 + 1) mod NUM_PLAYERS\<rparr>;
             s3 = s2\<lparr>trick_leader := round_starter s2,
                     position_in_trick := (4 - int (round_starter s2)) mod 4\<rparr>
         in case update_valid_actions (deal_cards s3) of
              Inl e \<Rightarrow> Inl e
            | Inr s4 \<Rightarrow> Inr (s4, reward)))"

subsection \<open>Game facade: \<open>reset\<close>, \<open>__init__\<close>, \<open>step\<close>\<close>

text \<open>\<open>super().reset(seed=seed)\<close> replaces \<open>self.np_random\<close> by a generator made from
  the seed when a seed is given, and leaves it alone otherwise. The seeding function is
  numpy's, taken as the parameter \<open>seeding\<close>.\<close>

definition reset :: "(int \<Rightarrow> rng) \<Rightarrow> int option \<Rightarrow> env \<Rightarrow> error + env" where
  "reset seeding seed s =
     (let s1 = s\<lparr>np_random := (case seed of None \<Rightarrow> np_random s | Some k \<Rightarrow> seeding k),
                 st_hand := zeros DECK_SIZE,
                 st_trump_card := zeros DECK_SIZE,
                 st_cards_played_in_trick := zeros DECK_SIZE,
                 st_cards_played_in_round := zeros DECK_SIZE,
                 player_bids := zeros NUM_PLAYERS,
                 player_tricks := zeros NUM_PLAYERS,
                 player_scores := zeros NUM_PLAYERS,
                 round_number := 1,
                 phase := 0,
                 lead_suit := SuitIndex (int NUM_SUITS),
                 position_in_trick := 0,
                 valid_actions := zeros DECK_SIZE,
                 cards_played_in_trick := [],
                 hands := replicate NUM_PLAYERS [],
                 trick_leader := round_starter s\<rparr>
      in update_valid_actions (deal_cards s1))"

text \<open>\<open>WizardEnv()\<close>: the constructor sets \<open>round_starter\<close> and \<open>trick_leader\<close> to 0 and
  calls \<open>reset()\<close>, which writes every other attribute. \<open>fresh_env\<close> is the object before
  that call (the attributes not yet assigned are empty); \<open>np\<close> and \<open>py\<close> are the two
  generators as the constructor finds them.\<close>

definition fresh_env :: "rng \<Rightarrow> rng \<Rightarrow> env" where
  "fresh_env np py =
       \<lparr>round_starter = 0, trick_leader = 0, hands = [], trump_card = None,
        cards_played_in_trick = [], st_hand = [], st_trump_card = [],
        st_cards_played_in_trick = [], st_cards_played_in_round = [],
        player_bids = [], player_tricks = [], player_scores = [],
        round_number = 0, phase = 0, lead_suit = SuitIndex (int NUM_SUITS),
        position_in_trick = 0, valid_actions = [],
        np_random = np, py_random = py, deck = []\<rparr>"

definition init_env :: "(int \<Rightarrow> rng) \<Rightarrow> rng \<Rightarrow> rng \<Rightarrow> error + env" where
  "init_env seeding np py = reset seeding None (fresh_env np py)"

text \<open>The bidding loop of \<open>step\<close> for the seats after the agent.\<close>

fun bids_after_agent :: "nat list \<Rightarrow> env \<Rightarrow> error + env" where
  "bids_after_agent [] s = Inr s"
| "bids_after_agent (i # rest) s =
     (let valid_bids = [0..round_number s];
          forbidden_bid = round_number s - sum_list (player_bids s);
          valid_bids' = (if i = NUM_PLAYERS - 1
                            \<and> forbidden_bid \<ge> 0 \<and> forbidden_bid \<le> round_number s
                         then remove1 forbidden_bid valid_bids else valid_bids)
      in case choice (np_random s) valid_bids' of
           Inl e \<Rightarrow> Inl e
         | Inr (bid, g) \<Rightarrow>
             if i < length (player_bids s)
             then bids_after_agent rest (s\<lparr>np_random := g, player_bids := (player_bids s)[i := bid]\<rparr>)
             else Inl IndexError)"

text \<open>The loop of \<open>step\<close> for the seats after the agent in the trick:
  \<^verbatim>\<open>while current_player != self.trick_leader: ...\<close>
  It never exits when \<open>trick_leader\<close> is not a seat; \<open>None\<close> is that outcome.\<close>

partial_function (option) plays_after_agent :: "nat \<Rightarrow> env \<Rightarrow> env option" where
  "plays_after_agent current_player s =
     (if current_player \<noteq> trick_leader s
      then plays_after_agent (get_next_player current_player) (simulate_play current_player s)
      else Some s)"

text \<open>\<open>step\<close> returns the environment (whose \<open>observation\<close> is the returned state),
  the reward, \<open>done\<close> and \<open>truncated\<close>; the info dict is always empty.\<close>

definition step :: "env \<Rightarrow> int \<Rightarrow> error + (env \<times> real \<times> bool \<times> bool)" where
  "step s action =
     (if phase s = 0 then
        (case process_bid s action of
           Inl e \<Rightarrow> Inl e
         | Inr s1 \<Rightarrow>
            (case bids_after_agent
                    (if round_starter s1 \<noteq> 0 then [1..<round_starter s1] else [1..<NUM_PLAYERS]) s1 of
               Inl e \<Rightarrow> Inl e
             | Inr s2 \<Rightarrow>
                (case update_valid_actions
                        (s2\<lparr>phase := 1, trick_leader := round_starter s2,
                            position_in_trick := (4 - int (round_starter s2)) mod 4\<rparr>) of
                   Inl e \<Rightarrow> Inl e
                 | Inr s3 \<Rightarrow>
                    (case play_until_agent_turn s3 of
                       Inl e \<Rightarrow> Inl e
                     | Inr s4 \<Rightarrow> Inr (s4, 0, False, False)))))
      else
        (case process_play s action of
           Inl e \<Rightarrow> Inl e
         | Inr s1 \<Rightarrow>
            (case plays_after_agent (get_next_player 0) s1 of
               None \<Rightarrow> Inl NonTermination
             | Some s2 \<Rightarrow>
                (case finish_trick s2 of
                   Inl e \<Rightarrow> Inl e
                 | Inr (s3, reward) \<Rightarrow>
                    if list_all (\<lambda>h. length h = 0) (hands s3) then
                      (case finish_round s3 of
                         Inl e \<Rightarrow> Inl e
                       | Inr (s4, reward') \<Rightarrow>
                          if round_number s4 > int MAX_ROUND then Inr (s4, reward', True, False)
                          else (case play_until_agent_turn s4 of
                                  Inl e \<Rightarrow> Inl e
                                | Inr s5 \<Rightarrow> Inr (s5, reward', False, False)))
                    else (case play_until_agent_turn s3 of
                            Inl e \<Rightarrow> Inl e
                          | Inr s4 \<Rightarrow> Inr (s4, reward, False, False))))))"

section \<open>The specification's wording of the trick evaluator\<close>

text \<open>Section 4.4 of the specification, stated on the played cards paired with their
  seats: the last Wizard wins; else, if all cards are Jesters, the leader wins; else the
  first non-Jester card starts as the winner and every later non-Jester card replaces
  it exactly when it beats it (\<open>spec_beats\<close>): it is trump and the winner is not, or it
  has the winner's suit and a strictly higher rank.\<close>

definition spec_beats :: "Card option \<Rightarrow> Card \<Rightarrow> Card \<Rightarrow> bool" where
  "spec_beats tr crd winning \<longleftrightarrow>
     (tr \<noteq> None \<and> csuit crd = csuit (the tr) \<and> csuit winning \<noteq> csuit (the tr))
     \<or> (csuit crd = csuit winning \<and> value_of (cvalue crd) > value_of (cvalue winning))"

definition spec_played :: "nat \<Rightarrow> Card list \<Rightarrow> (Card \<times> nat) list" where
  "spec_played leader cs = zip cs (map (\<lambda>i. (leader + i) mod NUM_PLAYERS) [0..<length cs])"

definition spec_trick_winner :: "nat \<Rightarrow> Card option \<Rightarrow> Card list \<Rightarrow> nat" where
  "spec_trick_winner leader tr cs =
     (let played = spec_played leader cs
      in if list_ex (\<lambda>c. cvalue c = WIZARD) cs
           then snd (last (filter (\<lambda>x. cvalue (fst x) = WIZARD) played))
         else if list_all (\<lambda>c. cvalue c = JESTER) cs then leader
         else (let start = hd (filter (\<lambda>x. cvalue (fst x) \<noteq> JESTER) played);
                   later = tl (dropWhile (\<lambda>x. cvalue (fst x) = JESTER) played)
               in snd (foldl (\<lambda>w x. if cvalue (fst x) \<noteq> JESTER \<and> spec_beats tr (fst x) (fst w)
                                       then x else w) start later)))"

text \<open>One step of that replacement, used to relate the loop of the source to it.\<close>

definition challenge :: "Card option \<Rightarrow> Card \<times> nat \<Rightarrow> Card \<times> nat \<Rightarrow> Card \<times> nat" where
  "challenge tr w x = (if cvalue (fst x) \<noteq> JESTER \<and> spec_beats tr (fst x) (fst w) then x else w)"

section \<open>Concrete environments\<close>

text \<open>An environment with four empty hands and all counters at zero, in round 1; the
  examples below are obtained from it by record update.\<close>

definition const_rng :: "nat \<Rightarrow> rng" where
  "const_rng k = (\<lambda>_. k, 0)"

definition base_env :: env where
  "base_env =
     \<lparr>round_starter = 0, trick_leader = 0, hands = [[], [], [], []], trump_card = None,
      cards_played_in_trick = [], st_hand = zeros DECK_SIZE, st_trump_card = zeros DECK_SIZE,
      st_cards_played_in_trick = zeros DECK_SIZE, st_cards_played_in_round = zeros DECK_SIZE,
      player_bids = [0, 0, 0, 0], player_tricks = [0, 0, 0, 0], player_scores = [0, 0, 0, 0],
      round_number = 1, phase = 0, lead_suit = SuitIndex 4,
      position_in_trick = 0, valid_actions = zeros DECK_SIZE,
      np_random = const_rng 0, py_random = const_rng 0, deck = []\<rparr>"

text \<open>Two states of the \<open>random\<close> module: with \<open>keep_rng\<close> every shuffle of the 60
  cards swaps each position with itself; with \<open>swap_rng\<close> it swaps the first and the
  last card and leaves the rest in place.\<close>

definition keep_rng :: rng where
  "keep_rng = (\<lambda>k. 59 - k mod 59, 0)"

definition swap_rng :: rng where
  "swap_rng = (\<lambda>k. if k mod 59 = 0 then 0 else 59 - k mod 59, 0)"

text \<open>Round 3 with seat 2 as round starter, before the opponents' bids.\<close>

definition round3_env :: env where
  "round3_env = base_env\<lparr>round_number := 3, round_starter := 2,
      hands := [[Card FIVE HEARTS, Card NINE SPADES, Card TWO HEARTS],
                [Card TWO CLUBS, Card THREE CLUBS, Card THREE HEARTS],
                [Card FOUR CLUBS, Card SIX CLUBS, Card FOUR HEARTS],
                [Card EIGHT CLUBS, Card SEVEN CLUBS, Card SIX HEARTS]],
      trump_card := Some (Card TEN DIAMONDS),
      np_random := (\<lambda>i. if i < 2 then 1 else 0, 0)\<rparr>"

text \<open>The last trick of round 15, led by the agent: every seat holds its last card, the
  other 56 cards have been played in the round, nothing is left of the deck.\<close>

definition last_trick_env :: env where
  "last_trick_env = base_env\<lparr>round_number := 15, phase := 1, round_starter := 2,
      trick_leader := 0,
      hands := [[Card ONE HEARTS], [Card TWO HEARTS], [Card THREE HEARTS], [Card FOUR HEARTS]],
      player_bids := [4, 3, 4, 4], player_tricks := [3, 3, 4, 4],
      st_hand := vec (Card ONE HEARTS),
      st_cards_played_in_round := replicate 4 0 @ replicate 56 1,
      py_random := keep_rng\<rparr>"

section \<open>The deck partition and the reachable states\<close>

text \<open>The cards the engine still holds as objects: the undealt remainder of the deck,
  the four hands and the trump card. The cards played in the round are kept only as the
  0/1 vector \<open>state["cards_played_in_round"]\<close>.\<close>

definition held_cards :: "env \<Rightarrow> Card list" where
  "held_cards s =
     deck s @ concat (hands s) @ (case trump_card s of None \<Rightarrow> [] | Some c \<Rightarrow> [c])"

definition cards_partition :: "env \<Rightarrow> bool" where
  "cards_partition s \<longleftrightarrow>
     vadd (vec_sum (map vec (held_cards s))) (st_cards_played_in_round s) = replicate DECK_SIZE 1"

text \<open>The states a caller can bring the engine into: construction, \<open>reset\<close>, \<open>step\<close>,
  each when it returns; in between, other code may draw from the \<open>random\<close> module.\<close>

inductive reachable :: "(int \<Rightarrow> rng) \<Rightarrow> env \<Rightarrow> bool" for seeding where
  constructed: "init_env seeding np py = Inr s \<Longrightarrow> reachable seeding s"
| after_reset: "reachable seeding s \<Longrightarrow> reset seeding seed s = Inr s' \<Longrightarrow> reachable seeding s'"
| after_step: "reachable seeding s \<Longrightarrow> step s action = Inr (s', reward, done, truncated)
                 \<Longrightarrow> reachable seeding s'"
| other_draws: "reachable seeding s \<Longrightarrow> reachable seeding (s\<lparr>py_random := g\<rparr>)"

section \<open>Auxiliary notions for the proofs\<close>

text \<open>The state that \<open>reset\<close> has built when it calls \<open>_deal_cards\<close>.\<close>

definition reset_fields :: "(int \<Rightarrow> rng) \<Rightarrow> int option \<Rightarrow> env \<Rightarrow> env" where
  "reset_fields seeding seed s =
     s\<lparr>np_random := (case seed of None \<Rightarrow> np_random s | Some k \<Rightarrow> seeding k),
       st_hand := zeros DECK_SIZE,
       st_trump_card := zeros DECK_SIZE,
       st_cards_played_in_trick := zeros DECK_SIZE,
       st_cards_played_in_round := zeros DECK_SIZE,
       player_bids := zeros NUM_PLAYERS,
       player_tricks := zeros NUM_PLAYERS,
       player_scores := zeros NUM_PLAYERS,
       round_number := 1,
       phase := 0,
       lead_suit := SuitIndex (int NUM_SUITS),
       position_in_trick := 0,
       valid_actions := zeros DECK_SIZE,
       cards_played_in_trick := [],
       hands := replicate NUM_PLAYERS [],
       trick_leader := round_starter s\<rparr>"

text \<open>What \<open>_deal_cards\<close> leaves in the fields it writes.\<close>

definition dealt :: "env \<Rightarrow> (Card list \<times> Card list list) \<times> rng" where
  "dealt s = (case shuffle (py_random s) create_deck of (d0, g) \<Rightarrow>
               (deal_rounds (nat (round_number s)) d0 (replicate NUM_PLAYERS []), g))"

text \<open>The shape every reachable state has, and the invariant the proofs carry.\<close>

definition wf_env :: "env \<Rightarrow> bool" where
  "wf_env s \<longleftrightarrow>
     length (hands s) = NUM_PLAYERS \<and> length (st_cards_played_in_round s) = DECK_SIZE
     \<and> list_all (\<lambda>x. x = 0 \<or> x = 1) (st_cards_played_in_round s)
     \<and> round_starter s < NUM_PLAYERS \<and> trick_leader s < NUM_PLAYERS"

definition table_inv :: "env \<Rightarrow> bool" where
  "table_inv s \<longleftrightarrow> wf_env s \<and> cards_partition s"

definition keeps :: "env \<Rightarrow> env \<Rightarrow> bool" where
  "keeps s s' \<longleftrightarrow>
     round_starter s' = round_starter s \<and> trick_leader s' = trick_leader s
     \<and> phase s' = phase s \<and> round_number s' = round_number s
     \<and> length (player_bids s') = length (player_bids s)"

definition same_table :: "env \<Rightarrow> env \<Rightarrow> bool" where
  "same_table s s' \<longleftrightarrow>
     hands s' = hands s \<and> deck s' = deck s \<and> trump_card s' = trump_card s
     \<and> st_cards_played_in_round s' = st_cards_played_in_round s"

text \<open>The multiset of the encoding slots of a list of cards.\<close>

definition slots :: "Card list \<Rightarrow> nat multiset" where
  "slots cs = image_mset (\<lambda>c. nat (card_index c)) (mset cs)"

text \<open>The bids an opponent chooses from in the loop of \<open>step\<close>.\<close>

definition hook_bids :: "nat \<Rightarrow> env \<Rightarrow> int list" where
  "hook_bids i s =
     (if i = NUM_PLAYERS - 1
         \<and> round_number s - sum_list (player_bids s) \<ge> 0
         \<and> round_number s - sum_list (player_bids s) \<le> round_number s
      then remove1 (round_number s - sum_list (player_bids s)) [0..round_number s]
      else [0..round_number s])"

section \<open>Card encoding\<close>


lemma suit_value_range: "0 \<le> suit_value s \<and> suit_value s \<le> 3"
  by (cases s) simp_all

lemma value_of_range: "0 \<le> value_of v \<and> value_of v \<le> 14"
  by (cases v) simp_all

lemma value_of_eq_0: "value_of v = 0 \<longleftrightarrow> v = JESTER"
  by (cases v) simp_all

lemma value_of_eq_14: "value_of v = 14 \<longleftrightarrow> v = WIZARD"
  by (cases v) simp_all

lemma CardValue_of_int_value_of: "CardValue_of_int (value_of v) = Inr v"
  by (cases v) (simp_all add: CardValue_of_int_def)

lemma CardSuit_of_int_suit_value: "CardSuit_of_int (suit_value s) = Inr s"
  by (cases s) (simp_all add: CardSuit_of_int_def)

lemma value_of_all_values:
  "map value_of (JESTER # numeric_values @ [WIZARD]) = [0..14]"
  by (simp add: numeric_values_def upto_rec1)

lemma CardValue_of_int_range:
  assumes "0 \<le> n" "n \<le> 14"
  shows "\<exists>v. CardValue_of_int n = Inr v \<and> value_of v = n"
proof -
  have "n \<in> set [0..14]" using assms by simp
  then have "n \<in> value_of ` set (JESTER # numeric_values @ [WIZARD])"
    unfolding value_of_all_values[symmetric] by (simp only: set_map)
  then obtain v where "value_of v = n" by blast
  then show ?thesis using CardValue_of_int_value_of[of v] by auto
qed

lemma CardSuit_of_int_range:
  "0 \<le> n \<Longrightarrow> n \<le> 3 \<Longrightarrow> \<exists>s. CardSuit_of_int n = Inr s \<and> suit_value s = n"
  unfolding CardSuit_of_int_def by (auto split: if_splits)

lemma card_index_range: "0 \<le> card_index c \<and> card_index c < 60"
proof -
  have s: "0 \<le> suit_value (csuit c) \<and> suit_value (csuit c) \<le> 3" by (rule suit_value_range)
  have v: "0 \<le> value_of (cvalue c) \<and> value_of (cvalue c) \<le> 14" by (rule value_of_range)
  have v0: "cvalue c \<noteq> JESTER \<Longrightarrow> value_of (cvalue c) \<noteq> 0" by (simp add: value_of_eq_0)
  have v14: "cvalue c \<noteq> WIZARD \<Longrightarrow> value_of (cvalue c) \<noteq> 14" by (simp add: value_of_eq_14)
  show ?thesis unfolding card_index_def using s v v0 v14 by auto
qed

lemma from_vector_idx_card_index: "from_vector_idx (card_index c) = Inr c"
proof (cases c)
  case (Card v s)
  have sr: "0 \<le> suit_value s \<and> suit_value s \<le> 3" by (rule suit_value_range)
  show ?thesis
  proof (cases "v = WIZARD")
    case True
    then show ?thesis using Card sr
      by (simp add: from_vector_idx_def card_index_def CardSuit_of_int_suit_value)
  next
    case nw: False
    show ?thesis
    proof (cases "v = JESTER")
      case True
      then show ?thesis using Card sr
        by (simp add: from_vector_idx_def card_index_def CardSuit_of_int_suit_value)
    next
      case nj: False
      have vr: "1 \<le> value_of v \<and> value_of v \<le> 13"
        using nw nj value_of_range[of v] value_of_eq_0[of v] value_of_eq_14[of v] by arith
      define k where "k = suit_value s * 13 + (value_of v - 1)"
      have lt: "k < 52" unfolding k_def using sr vr by arith
      have m: "CardValue_of_int (k mod 13 + 1) = Inr v"
        unfolding k_def using vr by (simp add: CardValue_of_int_value_of)
      have d: "CardSuit_of_int (k div 13) = Inr s"
        unfolding k_def using vr by (simp add: CardSuit_of_int_suit_value)
      have ci: "card_index c = k"
        unfolding k_def using Card nw nj by (simp add: card_index_def)
      have "from_vector_idx k = Inr (Card v s)"
        unfolding from_vector_idx_def using lt by (simp only: m d if_True sum.case)
      then show ?thesis using ci Card by simp
    qed
  qed
qed

lemma from_vector_idx_roundtrip:
  assumes "0 \<le> i" "i < 60"
  shows "\<exists>c. from_vector_idx i = Inr c \<and> card_index c = i"
proof -
  consider "i < 52" | "52 \<le> i" "i < 56" | "56 \<le> i" using assms by arith
  then show ?thesis
  proof cases
    case 1
    have "0 \<le> i mod 13 + 1" "i mod 13 + 1 \<le> 14" using assms by simp_all
    then obtain v where v: "CardValue_of_int (i mod 13 + 1) = Inr v" "value_of v = i mod 13 + 1"
      using CardValue_of_int_range by blast
    have "0 \<le> i div 13" "i div 13 \<le> 3" using assms 1 by simp_all
    then obtain s where s: "CardSuit_of_int (i div 13) = Inr s" "suit_value s = i div 13"
      using CardSuit_of_int_range by blast
    have nw: "v \<noteq> WIZARD" using v(2) assms by (auto simp: value_of_eq_14[symmetric])
    have nj: "v \<noteq> JESTER" using v(2) assms by (auto simp: value_of_eq_0[symmetric])
    show ?thesis using 1 v s nw nj
      by (simp add: from_vector_idx_def card_index_def)
  next
    case 2
    then obtain s where s: "CardSuit_of_int (i - 52) = Inr s" "suit_value s = i - 52"
      using CardSuit_of_int_range[of "i - 52"] by auto
    show ?thesis using 2 s by (simp add: from_vector_idx_def card_index_def)
  next
    case 3
    then obtain s where s: "CardSuit_of_int (i - 56) = Inr s" "suit_value s = i - 56"
      using CardSuit_of_int_range[of "i - 56"] assms by auto
    show ?thesis using 3 s by (simp add: from_vector_idx_def card_index_def)
  qed
qed


lemma from_vector_idx_error:
  assumes "i < 0 \<or> 60 \<le> i"
  shows "from_vector_idx i = Inl EnumValueError"
proof (cases "i < 0")
  case True
  then have "i div 13 < 0" by simp
  then have "CardSuit_of_int (i div 13) = Inl EnumValueError"
    by (simp add: CardSuit_of_int_def)
  moreover have "0 \<le> i mod 13 + 1" "i mod 13 + 1 \<le> 14" by simp_all
  then obtain v where "CardValue_of_int (i mod 13 + 1) = Inr v"
    using CardValue_of_int_range by blast
  ultimately show ?thesis using True
    by (simp add: from_vector_idx_def)
next
  case False
  then have "60 \<le> i" using assms by simp
  then have "CardSuit_of_int (i - 56) = Inl EnumValueError"
    by (simp add: CardSuit_of_int_def)
  then show ?thesis using \<open>60 \<le> i\<close>
    by (simp add: from_vector_idx_def)
qed

lemma to_vector_DECK_SIZE: "to_vector c DECK_SIZE = Inr (vec c)"
  using card_index_range[of c] by (simp add: to_vector_def vec_def DECK_SIZE_def)

text \<open>Claim C7. Decoding any of the 60 indices gives a card whose one-hot vector has
  its 1 at that index again, and re-decoding the slot of any card gives the card back:
  the encoding is a bijection between the cards and the slots 0..59. Numeric cards
  sit at \<open>suit * 13 + rank - 1\<close> below 52, Wizards at 52..55, Jesters at 56..59.\<close>

theorem encoding_round_trip:
  "(\<forall>i. 0 \<le> i \<and> i < int DECK_SIZE \<longrightarrow>
      (\<exists>c. from_vector_idx i = Inr c \<and> card_index c = i
           \<and> to_vector c DECK_SIZE = Inr ((zeros DECK_SIZE)[nat i := 1])))
   \<and> (\<forall>c. from_vector_idx (card_index c) = Inr c
          \<and> 0 \<le> card_index c \<and> card_index c < int DECK_SIZE
          \<and> (cvalue c = WIZARD \<longrightarrow> card_index c = 52 + suit_value (csuit c))
          \<and> (cvalue c = JESTER \<longrightarrow> card_index c = 56 + suit_value (csuit c))
          \<and> (cvalue c \<noteq> WIZARD \<and> cvalue c \<noteq> JESTER \<longrightarrow>
                card_index c = suit_value (csuit c) * 13 + (value_of (cvalue c) - 1)
                \<and> card_index c < 52))"
proof (intro conjI allI impI)
  fix i :: int
  assume "0 \<le> i \<and> i < int DECK_SIZE"
  then have "0 \<le> i" "i < 60" by (simp_all add: DECK_SIZE_def)
  then obtain c where c: "from_vector_idx i = Inr c" "card_index c = i"
    using from_vector_idx_roundtrip by blast
  have "to_vector c DECK_SIZE = Inr ((zeros DECK_SIZE)[nat i := 1])"
    using c(2) by (simp add: to_vector_DECK_SIZE vec_def)
  with c show "\<exists>c. from_vector_idx i = Inr c \<and> card_index c = i
           \<and> to_vector c DECK_SIZE = Inr ((zeros DECK_SIZE)[nat i := 1])"
    by blast
next
  fix c show "from_vector_idx (card_index c) = Inr c" by (rule from_vector_idx_card_index)
next
  fix c show "0 \<le> card_index c" using card_index_range[of c] by simp
next
  fix c show "card_index c < int DECK_SIZE"
    using card_index_range[of c] by (simp add: DECK_SIZE_def)
next
  fix c assume "cvalue c = WIZARD"
  then show "card_index c = 52 + suit_value (csuit c)" by (simp add: card_index_def)
next
  fix c assume "cvalue c = JESTER"
  then show "card_index c = 56 + suit_value (csuit c)" by (simp add: card_index_def)
next
  fix c assume "cvalue c \<noteq> WIZARD \<and> cvalue c \<noteq> JESTER"
  then show "card_index c = suit_value (csuit c) * 13 + (value_of (cvalue c) - 1)"
    by (simp add: card_index_def)
next
  fix c assume a: "cvalue c \<noteq> WIZARD \<and> cvalue c \<noteq> JESTER"
  have "value_of (cvalue c) \<le> 13"
    using a value_of_range[of "cvalue c"] value_of_eq_14[of "cvalue c"] by arith
  then show "card_index c < 52"
    using a suit_value_range[of "csuit c"] by (simp add: card_index_def)
qed

theorem encoding_round_trip_witness:
  "0 \<le> (17::int) \<and> 17 < int DECK_SIZE
   \<and> from_vector_idx 17 = Inr (Card FIVE DIAMONDS)
   \<and> card_index (Card FIVE DIAMONDS) = 17
   \<and> to_vector (Card FIVE DIAMONDS) DECK_SIZE = Inr ((zeros DECK_SIZE)[17 := 1])
   \<and> from_vector_idx (card_index (Card WIZARD CLUBS)) = Inr (Card WIZARD CLUBS)
   \<and> card_index (Card WIZARD CLUBS) = 54"
proof -
  have h: "0 \<le> (17::int) \<and> 17 < int DECK_SIZE" by (simp add: DECK_SIZE_def)
  have d: "from_vector_idx 17 = Inr (Card FIVE DIAMONDS)"
    by (simp add: from_vector_idx_def CardValue_of_int_def CardSuit_of_int_def)
  from encoding_round_trip have
    "\<exists>c. from_vector_idx 17 = Inr c \<and> card_index c = 17
         \<and> to_vector c DECK_SIZE = Inr ((zeros DECK_SIZE)[nat 17 := 1])"
    using h by blast
  then have a: "card_index (Card FIVE DIAMONDS) = 17
      \<and> to_vector (Card FIVE DIAMONDS) DECK_SIZE = Inr ((zeros DECK_SIZE)[17 := 1])"
    using d by simp
  from encoding_round_trip have
    b: "from_vector_idx (card_index (Card WIZARD CLUBS)) = Inr (Card WIZARD CLUBS)
        \<and> (cvalue (Card WIZARD CLUBS) = WIZARD
             \<longrightarrow> card_index (Card WIZARD CLUBS) = 52 + suit_value (csuit (Card WIZARD CLUBS)))"
    by blast
  from b have b1: "from_vector_idx (card_index (Card WIZARD CLUBS)) = Inr (Card WIZARD CLUBS)"
    by blast
  from b have b2: "card_index (Card WIZARD CLUBS) = 54" by simp
  show ?thesis using h d a b1 b2 by blast
qed

section \<open>Trick evaluator\<close>

lemma enumerate_as_zip_from: "map (\<lambda>(i, c). (c, f i)) (enumerate n cs) = zip cs (map f [n..<n + length cs])"
proof (induction cs arbitrary: n)
  case Nil
  then show ?case by simp
next
  case (Cons c cs)
  have "[n..<n + length (c # cs)] = n # [Suc n..<Suc n + length cs]"
    by (simp add: upt_rec)
  then show ?case using Cons.IH[of "Suc n"] by simp
qed

lemma cards_with_players_spec:
  "cards_with_players s = spec_played (trick_leader s) (cards_played_in_trick s)"
  unfolding cards_with_players_def spec_played_def
  using enumerate_as_zip_from[of "\<lambda>i. (trick_leader s + i) mod NUM_PLAYERS" 0 "cards_played_in_trick s"]
  by simp

lemma find_append:
  "find P (xs @ ys) = (case find P xs of None \<Rightarrow> find P ys | Some x \<Rightarrow> Some x)"
  by (induction xs) auto

lemma find_rev_last:
  "find P (rev xs) = (if filter P xs = [] then None else Some (last (filter P xs)))"
proof (induction xs)
  case Nil
  then show ?case by simp
next
  case (Cons x xs)
  show ?case
  proof (cases "filter P xs = []")
    case True
    then have "find P (rev xs) = None" using Cons.IH by simp
    then show ?thesis using True by (simp add: find_append)
  next
    case False
    then have "find P (rev xs) = Some (last (filter P xs))" using Cons.IH by simp
    then show ?thesis using False by (simp add: find_append)
  qed
qed

lemma find_hd_filter:
  "find P xs = (if filter P xs = [] then None else Some (hd (filter P xs)))"
  by (induction xs) auto

lemma compare_loop_foldl:
  "compare_loop tr xs wc w = snd (foldl (challenge tr) (wc, w) xs)"
proof (induction xs arbitrary: wc w)
  case Nil
  then show ?case by simp
next
  case (Cons x xs)
  obtain c p where x: "x = (c, p)" by (cases x)
  show ?case unfolding x using Cons.IH
    by (auto simp: challenge_def spec_beats_def)
qed

lemma foldl_challenge_jesters:
  "\<forall>x\<in>set js. cvalue (fst x) = JESTER \<Longrightarrow> foldl (challenge tr) w js = w"
  by (induction js) (simp_all add: challenge_def)

lemma challenge_self: "challenge tr w w = w"
  by (simp add: challenge_def)

lemma split_first_nonjester:
  assumes "filter (\<lambda>x. cvalue (fst x) \<noteq> JESTER) xs \<noteq> []"
  shows "xs = takeWhile (\<lambda>x. cvalue (fst x) = JESTER) xs
              @ hd (filter (\<lambda>x. cvalue (fst x) \<noteq> JESTER) xs)
              # tl (dropWhile (\<lambda>x. cvalue (fst x) = JESTER) xs)"
  using assms by (induction xs) auto

lemma filter_fst_zip:
  "length ys = length xs \<Longrightarrow> filter (\<lambda>x. P (fst x)) (zip xs ys) = [] \<longleftrightarrow> filter P xs = []"
  by (induction xs ys rule: list_induct2') auto

lemma list_all_fst_zip:
  "length ys = length xs \<Longrightarrow> list_all (\<lambda>x. P (fst x)) (zip xs ys) \<longleftrightarrow> list_all P xs"
  by (induction xs ys rule: list_induct2') auto


text \<open>Claim C1. For every trick (the empty one included) \<open>_evaluate_trick\<close> returns
  the winner of the specification's ordering: the seat of the last Wizard if a Wizard
  was played; else the leader if every card is a Jester; else the seat reached from the
  first non-Jester card by letting each later non-Jester card replace the current
  winner exactly when it is trump and the winner is not, or has the winner's suit and
  a strictly higher rank.\<close>

theorem evaluate_trick_spec:
  "evaluate_trick s = Inr (spec_trick_winner (trick_leader s) (trump_card s) (cards_played_in_trick s))"
proof -
  define cs where "cs = cards_played_in_trick s"
  define played where "played = spec_played (trick_leader s) cs"
  define tr where "tr = trump_card s"
  have cwp: "cards_with_players s = played"
    unfolding played_def cs_def by (rule cards_with_players_spec)
  have len: "played = zip cs (map (\<lambda>i. (trick_leader s + i) mod NUM_PLAYERS) [0..<length cs])"
    unfolding played_def spec_played_def ..
  have wiz_empty: "filter (\<lambda>x. cvalue (fst x) = WIZARD) played = [] \<longleftrightarrow> \<not> list_ex (\<lambda>c. cvalue c = WIZARD) cs"
    unfolding len by (subst filter_fst_zip) (auto simp: list_ex_iff filter_empty_conv)
  have jest: "list_all (\<lambda>x. cvalue (fst x) = JESTER) played \<longleftrightarrow> list_all (\<lambda>c. cvalue c = JESTER) cs"
    unfolding len by (subst list_all_fst_zip) auto
  have P1: "(\<lambda>(crd, player). cvalue crd = WIZARD) = (\<lambda>x. cvalue (fst x) = WIZARD)" by auto
  have P2: "(\<lambda>(crd, _). cvalue crd = JESTER) = (\<lambda>x. cvalue (fst x) = JESTER)" by auto
  have P3: "(\<lambda>(crd, player). cvalue crd \<noteq> JESTER) = (\<lambda>x. cvalue (fst x) \<noteq> JESTER)" by auto
  show ?thesis
  proof (cases "list_ex (\<lambda>c. cvalue c = WIZARD) cs")
    case True
    then have ne: "filter (\<lambda>x. cvalue (fst x) = WIZARD) played \<noteq> []" using wiz_empty by simp
    have "find (\<lambda>x. cvalue (fst x) = WIZARD) (rev played)
            = Some (last (filter (\<lambda>x. cvalue (fst x) = WIZARD) played))"
      using ne by (simp add: find_rev_last)
    then show ?thesis using True
      unfolding evaluate_trick_def spec_trick_winner_def cwp P1 Let_def
        cs_def[symmetric] played_def[symmetric]
      by (simp split: prod.splits)
  next
    case nowiz: False
    then have fw: "find (\<lambda>x. cvalue (fst x) = WIZARD) (rev played) = None"
      using wiz_empty by (simp add: find_rev_last)
    show ?thesis
    proof (cases "list_all (\<lambda>c. cvalue c = JESTER) cs")
      case True
      then show ?thesis using nowiz fw jest
        unfolding evaluate_trick_def spec_trick_winner_def cwp P1 P2 Let_def
          cs_def[symmetric] played_def[symmetric]
        by simp
    next
      case nj: False
      then have nja: "\<not> list_all (\<lambda>x. cvalue (fst x) = JESTER) played" using jest by simp
      then have ne: "filter (\<lambda>x. cvalue (fst x) \<noteq> JESTER) played \<noteq> []"
        by (auto simp: list_all_iff filter_empty_conv)
      define start where "start = hd (filter (\<lambda>x. cvalue (fst x) \<noteq> JESTER) played)"
      define later where "later = tl (dropWhile (\<lambda>x. cvalue (fst x) = JESTER) played)"
      define js where "js = takeWhile (\<lambda>x. cvalue (fst x) = JESTER) played"
      have fs: "find (\<lambda>x. cvalue (fst x) \<noteq> JESTER) played = Some start"
        using ne by (simp add: find_hd_filter start_def)
      have split: "played = js @ start # later"
        unfolding js_def start_def later_def by (rule split_first_nonjester[OF ne])
      have jsj: "\<forall>x\<in>set js. cvalue (fst x) = JESTER"
        unfolding js_def by (auto dest: set_takeWhileD)
      have "foldl (challenge tr) start played = foldl (challenge tr) start later"
        by (subst split) (simp add: foldl_challenge_jesters[OF jsj] challenge_self)
      then have cl: "compare_loop tr played (fst start) (snd start)
                 = snd (foldl (challenge tr) start later)"
        by (simp add: compare_loop_foldl)
      have ch: "challenge tr = (\<lambda>w x. if cvalue (fst x) \<noteq> JESTER \<and> spec_beats tr (fst x) (fst w) then x else w)"
        by (intro ext) (simp add: challenge_def)
      show ?thesis using nowiz nj fw nja fs cl
        unfolding evaluate_trick_def spec_trick_winner_def cwp P1 P2 P3 Let_def
          cs_def[symmetric] played_def[symmetric] tr_def[symmetric]
          start_def[symmetric] later_def[symmetric] ch
        by (auto split: prod.splits)
    qed
  qed
qed


theorem evaluate_trick_spec_witness:
  "evaluate_trick (base_env\<lparr>trick_leader := 2, trump_card := Some (Card TWO DIAMONDS),
       cards_played_in_trick := [Card FIVE CLUBS, Card NINE CLUBS, Card THREE DIAMONDS]\<rparr>) = Inr 0
   \<and> spec_trick_winner 2 (Some (Card TWO DIAMONDS))
        [Card FIVE CLUBS, Card NINE CLUBS, Card THREE DIAMONDS] = 0
   \<and> evaluate_trick (base_env\<lparr>trick_leader := 3,
       cards_played_in_trick := [Card WIZARD HEARTS, Card WIZARD SPADES]\<rparr>) = Inr 0
   \<and> evaluate_trick (base_env\<lparr>trick_leader := 1, cards_played_in_trick :=
         [Card JESTER HEARTS, Card JESTER SPADES, Card JESTER CLUBS, Card JESTER DIAMONDS]\<rparr>) = Inr 1"
proof -
  have "evaluate_trick (base_env\<lparr>trick_leader := 2, trump_card := Some (Card TWO DIAMONDS),
       cards_played_in_trick := [Card FIVE CLUBS, Card NINE CLUBS, Card THREE DIAMONDS]\<rparr>)
     = Inr (spec_trick_winner 2 (Some (Card TWO DIAMONDS))
        [Card FIVE CLUBS, Card NINE CLUBS, Card THREE DIAMONDS])"
    using evaluate_trick_spec[of "base_env\<lparr>trick_leader := 2, trump_card := Some (Card TWO DIAMONDS),
       cards_played_in_trick := [Card FIVE CLUBS, Card NINE CLUBS, Card THREE DIAMONDS]\<rparr>"]
    by simp
  moreover have "spec_trick_winner 2 (Some (Card TWO DIAMONDS))
        [Card FIVE CLUBS, Card NINE CLUBS, Card THREE DIAMONDS] = 0"
    by (simp add: spec_trick_winner_def spec_played_def spec_beats_def NUM_PLAYERS_def upt_rec)
  moreover have "evaluate_trick (base_env\<lparr>trick_leader := 3,
       cards_played_in_trick := [Card WIZARD HEARTS, Card WIZARD SPADES]\<rparr>) = Inr 0"
    by (simp add: evaluate_trick_def cards_with_players_def NUM_PLAYERS_def)
  moreover have "evaluate_trick (base_env\<lparr>trick_leader := 1, cards_played_in_trick :=
         [Card JESTER HEARTS, Card JESTER SPADES, Card JESTER CLUBS, Card JESTER DIAMONDS]\<rparr>) = Inr 1"
    by (simp add: evaluate_trick_def cards_with_players_def NUM_PLAYERS_def)
  ultimately show ?thesis by simp
qed

section \<open>Field-wise descriptions of the operations\<close>

lemma set_ones_ok:
  "\<forall>b\<in>set bs. 0 \<le> b \<and> b < int (length v)
     \<Longrightarrow> \<exists>v'. set_ones bs v = Inr v' \<and> length v' = length v"
proof (induction bs arbitrary: v)
  case Nil
  then show ?case by simp
next
  case (Cons b bs)
  have "\<forall>x\<in>set bs. 0 \<le> x \<and> x < int (length (v[nat b := 1]))"
    using Cons.prems by simp
  from Cons.IH[OF this] show ?case using Cons.prems by simp
qed

lemma set_get_valid_bids: "set (get_valid_bids s) \<subseteq> {0..round_number s}"
  by (auto simp: get_valid_bids_def Let_def)

lemma update_valid_actions_cases:
  "update_valid_actions s = Inl IndexError \<or> (\<exists>v. update_valid_actions s = Inr (s\<lparr>valid_actions := v\<rparr>))"
proof (cases "phase s = 0")
  case True
  show ?thesis
  proof (cases "set_ones (get_valid_bids s) (zeros DECK_SIZE)")
    case (Inl e)
    have "\<And>bs v. set_ones bs v = Inl e \<Longrightarrow> e = IndexError"
    proof -
      fix bs :: "int list" and v :: "int list"
      show "set_ones bs v = Inl e \<Longrightarrow> e = IndexError"
        by (induction bs arbitrary: v) (auto split: if_splits)
    qed
    then have "e = IndexError" using Inl by blast
    then show ?thesis using True Inl by (simp add: update_valid_actions_def)
  next
    case (Inr v)
    then show ?thesis using True by (auto simp: update_valid_actions_def)
  qed
next
  case False
  then show ?thesis by (auto simp: update_valid_actions_def)
qed

lemma update_valid_actions_Inr:
  "update_valid_actions s = Inr s' \<Longrightarrow> \<exists>v. s' = s\<lparr>valid_actions := v\<rparr>"
  using update_valid_actions_cases[of s] by auto

lemma update_valid_actions_playing:
  "phase s \<noteq> 0 \<Longrightarrow> \<exists>v. update_valid_actions s = Inr (s\<lparr>valid_actions := v\<rparr>)"
  by (simp add: update_valid_actions_def) (rule exI, rule refl)

lemma update_valid_actions_bidding:
  assumes "phase s = 0" "round_number s < int DECK_SIZE"
  shows "\<exists>v. update_valid_actions s = Inr (s\<lparr>valid_actions := v\<rparr>)"
proof -
  have "\<forall>b\<in>set (get_valid_bids s). 0 \<le> b \<and> b < int (length (zeros DECK_SIZE))"
    using set_get_valid_bids[of s] assms(2) by (auto simp: zeros_def)
  from set_ones_ok[OF this] show ?thesis
    using assms(1) by (auto simp: update_valid_actions_def)
qed

lemma deal_cards_eq:
  "deal_cards s =
     s\<lparr>hands := snd (fst (dealt s)),
       trump_card := (if fst (fst (dealt s)) \<noteq> [] then Some (last (fst (fst (dealt s)))) else None),
       st_hand := vec_sum (map vec (snd (fst (dealt s)) ! 0)),
       st_trump_card := (if fst (fst (dealt s)) \<noteq> [] then vec (last (fst (fst (dealt s))))
                         else zeros DECK_SIZE),
       py_random := snd (dealt s),
       deck := butlast (fst (fst (dealt s)))\<rparr>"
  by (simp add: deal_cards_def dealt_def Let_def split: prod.splits)
lemma shuffle_loop_identity:
  "n < length xs \<Longrightarrow> (\<forall>t < n. f (p + t) mod (n - t + 1) = n - t)
     \<Longrightarrow> shuffle_loop n (f, p) xs = (xs, (f, p + n))"
proof (induction n arbitrary: p xs)
  case 0
  then show ?case by simp
next
  case (Suc n)
  have d: "f p mod (Suc n + 1) = Suc n" using Suc.prems(2)[rule_format, of 0] by simp
  have "\<forall>t<n. f (Suc p + t) mod (n - t + 1) = n - t"
  proof (intro allI impI)
    fix t assume "t < n"
    then show "f (Suc p + t) mod (n - t + 1) = n - t"
      using Suc.prems(2)[rule_format, of "Suc t"] by simp
  qed
  then have "shuffle_loop n (f, Suc p) xs = (xs, (f, Suc p + n))"
    using Suc.IH[of xs "Suc p"] Suc.prems(1) by simp
  then show ?case using d by (simp add: draw_def)
qed

lemma length_create_deck: "length create_deck = 60"
  by (simp add: create_deck_def suit_cards_def numeric_values_def)

lemma shuffle_keep:
  "shuffle (fst keep_rng, 59 * m) create_deck = (create_deck, (fst keep_rng, 59 * m + 59))"
proof -
  have "\<forall>t<59. fst keep_rng (59 * m + t) mod (59 - t + 1) = (59::nat) - t"
    by (auto simp: keep_rng_def)
  then show ?thesis
    unfolding shuffle_def
    using shuffle_loop_identity[of 59 create_deck "fst keep_rng" "59 * m"]
    by (simp add: length_create_deck)
qed

lemma shuffle_loop_Suc:
  "shuffle_loop (Suc i) (f, p) xs
     = shuffle_loop i (f, Suc p)
         (xs[Suc i := xs ! (f p mod (Suc i + 1)), (f p mod (Suc i + 1)) := xs ! Suc i])"
  by (simp add: draw_def Let_def)

lemma shuffle_swap:
  "shuffle (fst swap_rng, 59 * m) create_deck
     = (create_deck[59 := create_deck ! 0, 0 := create_deck ! 59], (fst swap_rng, 59 * m + 59))"
proof -
  define ys where "ys = create_deck[59 := create_deck ! 0, 0 := create_deck ! 59]"
  have len: "length ys = 60" by (simp add: ys_def length_create_deck)
  have "\<forall>t<58. fst swap_rng (Suc (59 * m) + t) mod (58 - t + 1) = (58::nat) - t"
  proof (intro allI impI)
    fix t :: nat assume t: "t < 58"
    have "Suc (59 * m) + t = 59 * m + Suc t" by simp
    then have "(Suc (59 * m) + t) mod 59 = Suc t mod 59"
      by (simp only: mod_mult_self4)
    then have "(Suc (59 * m) + t) mod 59 = Suc t" using t by simp
    then show "fst swap_rng (Suc (59 * m) + t) mod (58 - t + 1) = 58 - t"
      using t by (simp add: swap_rng_def)
  qed
  then have rest: "shuffle_loop 58 (fst swap_rng, Suc (59 * m)) ys = (ys, (fst swap_rng, Suc (59 * m) + 58))"
    using shuffle_loop_identity[of 58 ys "fst swap_rng" "Suc (59 * m)"] len by simp
  have first: "fst swap_rng (59 * m) = 0" by (simp add: swap_rng_def)
  have n59: "(59::nat) = Suc 58" by simp
  have "shuffle_loop (Suc 58) (fst swap_rng, 59 * m) create_deck
          = shuffle_loop 58 (fst swap_rng, Suc (59 * m)) (create_deck[Suc 58 := create_deck ! 0, 0 := create_deck ! Suc 58])"
    by (simp only: shuffle_loop_Suc first mod_0)
  then have "shuffle_loop 59 (fst swap_rng, 59 * m) create_deck = (ys, (fst swap_rng, Suc (59 * m) + 58))"
    using rest unfolding ys_def n59[symmetric] by simp
  then show ?thesis
    unfolding shuffle_def length_create_deck ys_def[symmetric] by simp
qed

lemma shuffle_keep_0: "shuffle keep_rng create_deck = (create_deck, (fst keep_rng, 59))"
  using shuffle_keep[of 0] by (simp add: keep_rng_def)

lemma shuffle_keep_1: "shuffle (fst keep_rng, 59) create_deck = (create_deck, (fst keep_rng, 118))"
  using shuffle_keep[of 1] by simp

lemma shuffle_swap_0:
  "shuffle swap_rng create_deck
     = (create_deck[59 := create_deck ! 0, 0 := create_deck ! 59], (fst swap_rng, 59))"
  using shuffle_swap[of 0] by (simp add: swap_rng_def)

lemma shuffle_swap_1:
  "shuffle (fst swap_rng, 59) create_deck
     = (create_deck[59 := create_deck ! 0, 0 := create_deck ! 59], (fst swap_rng, 118))"
  using shuffle_swap[of 1] by simp



lemma reset_eq:
  "\<exists>v. reset sd seed s = Inr ((deal_cards (reset_fields sd seed s))\<lparr>valid_actions := v\<rparr>)"
proof -
  have "reset sd seed s = update_valid_actions (deal_cards (reset_fields sd seed s))"
    by (simp add: reset_def reset_fields_def Let_def)
  moreover have "phase (deal_cards (reset_fields sd seed s)) = 0"
    "round_number (deal_cards (reset_fields sd seed s)) < int DECK_SIZE"
    by (simp_all add: deal_cards_eq reset_fields_def DECK_SIZE_def)
  ultimately show ?thesis using update_valid_actions_bidding by simp
qed

lemma deal_first_keep:
  "snd (deal_rounds 1 create_deck (replicate NUM_PLAYERS [])) ! 0 = [Card JESTER SPADES]"
  by (simp add: create_deck_def suit_cards_def numeric_values_def NUM_PLAYERS_def upt_rec)

lemma deal_first_swap:
  "snd (deal_rounds 1 (create_deck[59 := create_deck ! 0, 0 := create_deck ! 59])
          (replicate NUM_PLAYERS [])) ! 0 = [Card ONE HEARTS]"
  by (simp add: create_deck_def suit_cards_def numeric_values_def NUM_PLAYERS_def upt_rec)

lemma length_vec: "length (vec c) = DECK_SIZE"
  by (simp add: vec_def zeros_def)

lemma vadd_zeros: "length v = n \<Longrightarrow> vadd (zeros n) v = v"
  by (simp add: vadd_def zeros_def list_eq_iff_nth_eq)

lemma vec_sum_single: "vec_sum [vec c] = vec c"
  by (simp add: vec_sum_def vadd_zeros length_vec)

lemma reset_hand:
  assumes "shuffle (py_random s) create_deck = (d0, g)"
  shows "\<exists>s'. reset sd seed s = Inr s' \<and> py_random s' = g \<and> round_starter s' = round_starter s
           \<and> obs_hand (observation s')
               = vec_sum (map vec (snd (deal_rounds 1 d0 (replicate NUM_PLAYERS [])) ! 0))"
proof -
  obtain v where v: "reset sd seed s = Inr ((deal_cards (reset_fields sd seed s))\<lparr>valid_actions := v\<rparr>)"
    using reset_eq by blast
  have p: "py_random (reset_fields sd seed s) = py_random s" "round_number (reset_fields sd seed s) = 1"
      "round_starter (reset_fields sd seed s) = round_starter s"
    by (simp_all add: reset_fields_def)
  have d: "dealt (reset_fields sd seed s) = (deal_rounds 1 d0 (replicate NUM_PLAYERS []), g)"
    unfolding dealt_def p using assms by simp
  show ?thesis unfolding v
    by (simp add: deal_cards_eq d observation_def p)
qed

lemma init_env_eq: "init_env sd np py = reset sd None (fresh_env np py)"
  by (simp add: init_env_def)

lemma vec_differ: "vec (Card JESTER SPADES) \<noteq> vec (Card ONE HEARTS)"
proof
  assume "vec (Card JESTER SPADES) = vec (Card ONE HEARTS)"
  then have "vec (Card JESTER SPADES) ! 0 = vec (Card ONE HEARTS) ! 0" by simp
  then show False by (simp add: vec_def card_index_def zeros_def DECK_SIZE_def)
qed

text \<open>Claim C3 (determinism under a seed), evaluated on the code. Two environments are
  constructed and then reset with the same seed 42, for any seeding function and any
  initial \<open>np_random\<close>; they differ only in the state of Python's \<open>random\<close> module, which
  \<open>random.shuffle\<close> in \<open>_deal_cards\<close> draws from and which the seed does not touch. Both
  hold the same seeded \<open>np_random\<close>, yet the first observations differ: the agent's hand
  is the Jester of spades in one game and the 1 of hearts in the other.\<close>

theorem same_seed_different_deal:
  "\<exists>sA sB sA' sB'.
      init_env sd np keep_rng = Inr sA \<and> init_env sd np swap_rng = Inr sB
    \<and> reset sd (Some 42) sA = Inr sA' \<and> reset sd (Some 42) sB = Inr sB'
    \<and> np_random sA' = np_random sB'
    \<and> obs_hand (observation sA') = vec (Card JESTER SPADES)
    \<and> obs_hand (observation sB') = vec (Card ONE HEARTS)
    \<and> observation sA' \<noteq> observation sB'"
proof -
  have pa: "shuffle (py_random (fresh_env np keep_rng)) create_deck = (create_deck, (fst keep_rng, 59))"
    by (simp add: fresh_env_def shuffle_keep_0)
  obtain sA where sA: "init_env sd np keep_rng = Inr sA" "py_random sA = (fst keep_rng, 59)"
    using reset_hand[OF pa, of sd None] unfolding init_env_eq by blast
  have pa': "shuffle (py_random sA) create_deck = (create_deck, (fst keep_rng, 118))"
    by (simp add: sA(2) shuffle_keep_1)
  obtain sA' where sA': "reset sd (Some 42) sA = Inr sA'"
    "obs_hand (observation sA') = vec (Card JESTER SPADES)"
    using reset_hand[OF pa', of sd "Some 42"]
    unfolding deal_first_keep list.map vec_sum_single by blast
  have pb: "shuffle (py_random (fresh_env np swap_rng)) create_deck
       = (create_deck[59 := create_deck ! 0, 0 := create_deck ! 59], (fst swap_rng, 59))"
    by (simp add: fresh_env_def shuffle_swap_0)
  obtain sB where sB: "init_env sd np swap_rng = Inr sB" "py_random sB = (fst swap_rng, 59)"
    using reset_hand[OF pb, of sd None] unfolding init_env_eq by blast
  have pb': "shuffle (py_random sB) create_deck
       = (create_deck[59 := create_deck ! 0, 0 := create_deck ! 59], (fst swap_rng, 118))"
    by (simp add: sB(2) shuffle_swap_1)
  obtain sB' where sB': "reset sd (Some 42) sB = Inr sB'"
    "obs_hand (observation sB') = vec (Card ONE HEARTS)"
    using reset_hand[OF pb', of sd "Some 42"]
    unfolding deal_first_swap list.map vec_sum_single by blast
  have np: "np_random sA' = np_random sB'"
  proof -
    obtain v where "reset sd (Some 42) sA = Inr ((deal_cards (reset_fields sd (Some 42) sA))\<lparr>valid_actions := v\<rparr>)"
      using reset_eq by blast
    then have a: "np_random sA' = sd 42" using sA'(1)
      by (auto simp: deal_cards_eq reset_fields_def)
    obtain w where "reset sd (Some 42) sB = Inr ((deal_cards (reset_fields sd (Some 42) sB))\<lparr>valid_actions := w\<rparr>)"
      using reset_eq by blast
    then have "np_random sB' = sd 42" using sB'(1)
      by (auto simp: deal_cards_eq reset_fields_def)
    with a show ?thesis by simp
  qed
  have "observation sA' \<noteq> observation sB'"
    using sA'(2) sB'(2) vec_differ by auto
  then show ?thesis using sA(1) sB(1) sA'(1) sB'(1) sA'(2) sB'(2) np by blast
qed

lemma reset_round_starter:
  "\<exists>s'. reset sd seed s = Inr s' \<and> round_starter s' = round_starter s
        \<and> trick_leader s' = round_starter s \<and> round_number s' = 1 \<and> phase s' = 0
        \<and> player_bids s' = zeros NUM_PLAYERS"
proof -
  obtain v where "reset sd seed s = Inr ((deal_cards (reset_fields sd seed s))\<lparr>valid_actions := v\<rparr>)"
    using reset_eq by blast
  then show ?thesis by (simp add: deal_cards_eq reset_fields_def)
qed

text \<open>Claim C9 (round-starter rotation and the fixed first starter), evaluated on the code.
  The constructor's game starts with seat 0, but \<open>reset()\<close> never assigns
  \<open>round_starter\<close>: called on an environment whose starter is seat 1 (as after one
  finished round), the new game's first round starts with seat 1, in round 1, with no
  bid placed for the seats 1..3 that bid before the agent.\<close>

theorem reset_keeps_round_starter:
  "(\<exists>s'. init_env sd np py = Inr s' \<and> round_starter s' = 0)
   \<and> (\<exists>s'. reset sd seed (base_env\<lparr>round_starter := 1\<rparr>) = Inr s'
          \<and> round_starter s' = 1 \<and> trick_leader s' = 1 \<and> round_number s' = 1
          \<and> phase s' = 0 \<and> player_bids s' = [0, 0, 0, 0])"
proof
  show "\<exists>s'. init_env sd np py = Inr s' \<and> round_starter s' = 0"
    using reset_round_starter[of sd None "fresh_env np py"]
    unfolding init_env_eq by (auto simp: fresh_env_def)
next
  show "\<exists>s'. reset sd seed (base_env\<lparr>round_starter := 1\<rparr>) = Inr s'
          \<and> round_starter s' = 1 \<and> trick_leader s' = 1 \<and> round_number s' = 1
          \<and> phase s' = 0 \<and> player_bids s' = [0, 0, 0, 0]"
    using reset_round_starter[of sd seed "base_env\<lparr>round_starter := 1\<rparr>"]
    by (auto simp: zeros_def NUM_PLAYERS_def eval_nat_numeral)
qed


section \<open>The engine on concrete states\<close>

lemmas engine_defs = play_until_agent_turn_def update_valid_actions_def get_valid_bids_def
  choice_def draw_def base_env_def const_rng_def NUM_PLAYERS_def DECK_SIZE_def NUM_SUITS_def zeros_def
  process_bid_def process_play_def vector_idx_to_hand_idx_def from_vector_idx_def
  CardValue_of_int_def CardSuit_of_int_def is_valid_play_def find_lead_suit_def
  simulate_play_def vadd_def vec_def card_index_def logical_or_reduce_def vor_def
  get_next_player_def step_def plays_before_agent.simps plays_after_agent.simps
  finish_trick_def evaluate_trick_def cards_with_players_def

text \<open>Claim C2 (legal bids and the hook rule), evaluated on the code. Round 2 with seat 1
  as round starter: the seats 1, 2, 3 bid 0, 1, 1 before the agent, so the agent is the
  last to bid and \<open>2 - (0 + 1 + 1) = 0\<close> is the bid the hook rule forbids. \<open>_get_valid_bids\<close>
  counts the non-zero bids to find out whether the agent bids last, takes the bid 0 of
  seat 1 for a bid not yet placed, and returns all of 0, 1, 2; the bid 0 is accepted
  and the bids then sum to the round number.\<close>

theorem hook_rule_missed_after_zero_bid:
  "map_sum id (\<lambda>s. (player_bids s, round_number s, get_valid_bids s,
                     map_sum id (\<lambda>s'. sum_list (player_bids s')) (process_bid s 0)))
     (play_until_agent_turn (base_env\<lparr>round_number := 2, round_starter := 1,
         np_random := (\<lambda>i. if i = 0 then 0 else 1, 0)\<rparr>))
   = Inr ([0, 0, 1, 1], 2, [0, 1, 2], Inr 2)"
  by (simp add: engine_defs upt_rec upto_rec1)

text \<open>Claim C4 (a play fails exactly when the card is not held or breaks the
  follow-suit rule), evaluated on the code. Seat 3 has led the 7 of hearts; the agent
  holds the 5 of hearts and the 9 of spades. The 9 of spades (index 47) is no valid play
  for \<open>_is_valid_play\<close>, and \<open>_process_play\<close> plays it all the same: it only looks for
  the card in the hand.\<close>

theorem process_play_accepts_suit_violation:
  "is_valid_play (base_env\<lparr>phase := 1, round_number := 2, trick_leader := 3,
        hands := [[Card FIVE HEARTS, Card NINE SPADES], [Card TWO CLUBS, Card THREE CLUBS],
                  [Card FOUR CLUBS, Card SIX CLUBS], [Card EIGHT CLUBS]],
        cards_played_in_trick := [Card SEVEN HEARTS]\<rparr>) (Card NINE SPADES) 0 = False
   \<and> map_sum id (\<lambda>s. (hands s ! 0, cards_played_in_trick s))
       (process_play (base_env\<lparr>phase := 1, round_number := 2, trick_leader := 3,
        hands := [[Card FIVE HEARTS, Card NINE SPADES], [Card TWO CLUBS, Card THREE CLUBS],
                  [Card FOUR CLUBS, Card SIX CLUBS], [Card EIGHT CLUBS]],
        cards_played_in_trick := [Card SEVEN HEARTS]\<rparr>) 47)
     = Inr ([Card FIVE HEARTS], [Card SEVEN HEARTS, Card NINE SPADES])"
  by (simp add: engine_defs)

text \<open>Claim C6 (the opponents' automatic bids honour the hook rule), evaluated on the
  code. Round 3 with seat 2 as round starter: the seats 2 and 3 bid 1 and 1, the agent
  bids 1, and seat 1 bids last. \<open>step\<close> applies the hook rule to seat 3 only, so seat 1
  chooses among all of 0..3 and here bids the forbidden 0: the bids sum to the round
  number 3.\<close>

theorem last_opponent_bids_forbidden_value:
  "(case play_until_agent_turn round3_env of
      Inl e \<Rightarrow> Inl e
    | Inr s \<Rightarrow> map_sum id (\<lambda>(s', r, d, t). (player_bids s', sum_list (player_bids s'),
                                              round_number s', phase s'))
                (step s 1))
   = Inr ([1, 0, 1, 1], 3, 3, 1)"
  by (simp add: round3_env_def engine_defs upt_rec upto_rec1)

text \<open>Claim C10 (the observation's \<open>lead_suit\<close> is the suit index of the first
  non-special card of the trick, or 4), evaluated on the code. Seat 3 has led a Jester
  and the agent plays the 5 of hearts (index 4): \<open>_process_play\<close> writes \<open>lead_suit\<close>
  only for the first card of a trick, so it stays 4 although the first non-special
  card is a heart. Seat 1 then plays the 2 of clubs, and \<open>_simulate_play\<close> stores the
  enum member \<open>CardSuit.CLUBS\<close>: neither the index 0 of hearts nor the sentinel 4.\<close>

theorem lead_suit_not_first_non_special:
  "map_sum id (\<lambda>s. (lead_suit s, cards_played_in_trick s,
                     find_lead_suit (cards_played_in_trick s),
                     lead_suit (simulate_play 1 s),
                     find_lead_suit (cards_played_in_trick (simulate_play 1 s))))
       (process_play (base_env\<lparr>phase := 1, round_number := 2, trick_leader := 3,
        hands := [[Card FIVE HEARTS, Card NINE SPADES], [Card TWO CLUBS, Card THREE CLUBS],
                  [Card FOUR CLUBS, Card SIX CLUBS], [Card EIGHT CLUBS]],
        cards_played_in_trick := [Card JESTER DIAMONDS]\<rparr>) 4)
     = Inr (SuitIndex 4, [Card JESTER DIAMONDS, Card FIVE HEARTS], Some HEARTS,
            SuitMember CLUBS, Some HEARTS)"
  by (simp add: engine_defs)

section \<open>The partition of the cards\<close>

lemma length_vadd: "length (vadd a b) = min (length a) (length b)"
  by (simp add: vadd_def)

lemma nth_vadd: "k < length a \<Longrightarrow> k < length b \<Longrightarrow> vadd a b ! k = a ! k + b ! k"
  by (simp add: vadd_def)

lemma nth_vec: "k < DECK_SIZE \<Longrightarrow> vec c ! k = (if k = nat (card_index c) then 1 else 0)"
  by (auto simp: vec_def zeros_def)

lemma foldl_vadd_vec:
  "length a = DECK_SIZE \<Longrightarrow>
     length (foldl vadd a (map vec cs)) = DECK_SIZE
     \<and> (\<forall>k<DECK_SIZE. foldl vadd a (map vec cs) ! k = a ! k + int (count (slots cs) k))"
proof (induction cs arbitrary: a)
  case Nil
  then show ?case by (simp add: slots_def)
next
  case (Cons c cs)
  have la: "length (vadd a (vec c)) = DECK_SIZE"
    using Cons.prems by (simp add: length_vadd length_vec)
  have step: "\<forall>k<DECK_SIZE. vadd a (vec c) ! k = a ! k + (if k = nat (card_index c) then 1 else 0)"
    using Cons.prems by (simp add: nth_vadd length_vec nth_vec)
  show ?case using Cons.IH[OF la] step by (auto simp: slots_def)
qed

lemma vec_sum_slots:
  "length (vec_sum (map vec cs)) = DECK_SIZE"
  "k < DECK_SIZE \<Longrightarrow> vec_sum (map vec cs) ! k = int (count (slots cs) k)"
  using foldl_vadd_vec[of "zeros DECK_SIZE" cs]
  by (simp_all add: vec_sum_def zeros_def)

lemma cards_partition_iff:
  assumes "length (st_cards_played_in_round s) = DECK_SIZE"
  shows "cards_partition s \<longleftrightarrow>
           (\<forall>k<DECK_SIZE. int (count (slots (held_cards s)) k) + st_cards_played_in_round s ! k = 1)"
  unfolding cards_partition_def
  by (simp add: list_eq_iff_nth_eq length_vadd vec_sum_slots assms nth_vadd)

subsection \<open>The deck\<close>

lemma distinct_create_deck: "distinct create_deck"
  by (simp add: create_deck_def suit_cards_def numeric_values_def)

lemma all_in_create_deck: "c \<in> set create_deck"
proof (cases c)
  case (Card v s)
  show ?thesis unfolding Card
    by (cases v; cases s) (simp_all add: create_deck_def suit_cards_def numeric_values_def)
qed

lemma card_index_inj:
  assumes "card_index a = card_index b"
  shows "a = b"
proof -
  have "Inr a = from_vector_idx (card_index a)"
    by (simp only: from_vector_idx_card_index)
  also have "\<dots> = from_vector_idx (card_index b)"
    by (simp only: assms)
  also have "\<dots> = Inr b"
    by (simp only: from_vector_idx_card_index)
  finally show ?thesis by (simp only: sum.inject)
qed

lemma slot_eq_iff: "nat (card_index a) = nat (card_index c) \<longleftrightarrow> a = c"
proof
  assume h: "nat (card_index a) = nat (card_index c)"
  have "0 \<le> card_index a" "0 \<le> card_index c"
    using card_index_range[of a] card_index_range[of c] by simp_all
  then have "card_index a = card_index c" using h by (simp only: nat_eq_iff2)
  then show "a = c" by (rule card_index_inj)
next
  assume "a = c"
  then show "nat (card_index a) = nat (card_index c)" by (simp only:)
qed

lemma count_slots: "count (slots cs) (nat (card_index c)) = count (mset cs) c"
  by (induction cs) (simp_all add: slots_def slot_eq_iff)

lemma count_slots_distinct:
  "distinct cs \<Longrightarrow> count (slots cs) (nat (card_index c)) = (if c \<in> set cs then 1 else 0)"
  by (simp add: count_slots distinct_count_atmost_1)

lemma slot_of_card: "k < DECK_SIZE \<Longrightarrow> \<exists>c. k = nat (card_index c)"
proof -
  assume "k < DECK_SIZE"
  then have "0 \<le> int k" "int k < 60" by (simp_all add: DECK_SIZE_def)
  then obtain c where "card_index c = int k"
    using from_vector_idx_roundtrip by blast
  then have "k = nat (card_index c)" by simp
  then show ?thesis by blast
qed

lemma count_slots_create_deck: "k < DECK_SIZE \<Longrightarrow> count (slots create_deck) k = 1"
proof -
  assume "k < DECK_SIZE"
  then obtain c where "k = nat (card_index c)" using slot_of_card by blast
  then show ?thesis
    by (simp add: count_slots_distinct[OF distinct_create_deck] all_in_create_deck)
qed

subsection \<open>Shuffling and dealing move cards, they neither make nor lose any\<close>

lemma mset_shuffle_loop:
  "n < length xs \<Longrightarrow> mset (fst (shuffle_loop n g xs)) = mset xs"
proof (induction n arbitrary: g xs)
  case 0
  then show ?case by simp
next
  case (Suc n)
  obtain r g' where d: "draw g = (r, g')" by (cases "draw g")
  define j where "j = r mod (Suc n + 1)"
  have j: "j < length xs" using Suc.prems unfolding j_def
    by (metis Suc_eq_plus1 less_Suc_eq_le mod_less_divisor order_le_less_trans zero_less_Suc)
  define ys where "ys = xs[Suc n := xs ! j, j := xs ! Suc n]"
  have "mset ys = mset xs" unfolding ys_def using j Suc.prems by (simp add: mset_swap)
  moreover have "n < length ys" using Suc.prems by (simp add: ys_def)
  ultimately have "mset (fst (shuffle_loop n g' ys)) = mset xs"
    using Suc.IH[of ys g'] by simp
  then show ?case using d by (simp add: Let_def j_def ys_def)
qed

lemma mset_shuffle: "mset (fst (shuffle g xs)) = mset xs"
proof (cases xs)
  case Nil
  then show ?thesis by (simp add: shuffle_def)
next
  case (Cons x rest)
  then have "length xs - 1 < length xs" by simp
  then show ?thesis unfolding shuffle_def by (rule mset_shuffle_loop)
qed

lemma mset_concat_update:
  "p < length hs \<Longrightarrow> mset (concat (hs[p := hs ! p @ [x]])) = add_mset x (mset (concat hs))"
proof (induction hs arbitrary: p)
  case Nil
  then show ?case by simp
next
  case (Cons h hs)
  then show ?case by (cases p) simp_all
qed

lemma mset_butlast_last: "d \<noteq> [] \<Longrightarrow> add_mset (last d) (mset (butlast d)) = mset d"
  by (induction d) auto

lemma deal_players_mset:
  "\<forall>p\<in>set ps. p < length hs \<Longrightarrow> deal_players ps d hs = (d', hs') \<Longrightarrow>
     mset d' + mset (concat hs') = mset d + mset (concat hs) \<and> length hs' = length hs"
proof (induction ps arbitrary: d hs)
  case Nil
  then show ?case by simp
next
  case (Cons p ps)
  show ?case
  proof (cases "d = []")
    case True
    then have "deal_players ps d hs = (d', hs')" using Cons.prems(2) by simp
    then show ?thesis using Cons.IH[of hs d] Cons.prems(1) by simp
  next
    case False
    define hs1 where "hs1 = hs[p := hs ! p @ [last d]]"
    have r: "deal_players ps (butlast d) hs1 = (d', hs')"
      using Cons.prems(2) False by (simp add: hs1_def)
    have b: "\<forall>q\<in>set ps. q < length hs1" using Cons.prems(1) by (simp add: hs1_def)
    have p: "p < length hs" using Cons.prems(1) by simp
    have "mset (butlast d) + mset (concat hs1) = mset d + mset (concat hs)"
      unfolding hs1_def using mset_concat_update[OF p, of "last d"] mset_butlast_last[OF False]
      by (metis union_mset_add_mset_left union_mset_add_mset_right)
    moreover have "length hs1 = length hs" by (simp add: hs1_def)
    ultimately show ?thesis using Cons.IH[OF b r] by simp
  qed
qed

lemma deal_rounds_mset:
  "length hs = NUM_PLAYERS \<Longrightarrow> deal_rounds n d hs = (d', hs') \<Longrightarrow>
     mset d' + mset (concat hs') = mset d + mset (concat hs) \<and> length hs' = NUM_PLAYERS"
proof (induction n arbitrary: d hs)
  case 0
  then show ?case by simp
next
  case (Suc n)
  obtain d1 hs1 where dp: "deal_players [0..<NUM_PLAYERS] d hs = (d1, hs1)"
    by (cases "deal_players [0..<NUM_PLAYERS] d hs")
  have "\<forall>p\<in>set [0..<NUM_PLAYERS]. p < length hs" using Suc.prems(1) by simp
  from deal_players_mset[OF this dp]
  have a: "mset d1 + mset (concat hs1) = mset d + mset (concat hs)" "length hs1 = NUM_PLAYERS"
    using Suc.prems(1) by simp_all
  have "deal_rounds n d1 hs1 = (d', hs')" using Suc.prems(2) dp by simp
  from Suc.IH[OF a(2) this] show ?case using a(1) by simp
qed

lemma held_cards_deal_cards:
  "mset (held_cards (deal_cards s)) = mset create_deck
   \<and> length (hands (deal_cards s)) = NUM_PLAYERS"
proof -
  obtain d0 g where sh: "shuffle (py_random s) create_deck = (d0, g)"
    by (cases "shuffle (py_random s) create_deck")
  obtain d1 hs where dr: "deal_rounds (nat (round_number s)) d0 (replicate NUM_PLAYERS []) = (d1, hs)"
    by (cases "deal_rounds (nat (round_number s)) d0 (replicate NUM_PLAYERS [])")
  have d0: "mset d0 = mset create_deck" using mset_shuffle[of "py_random s" create_deck] sh by simp
  have "length (replicate NUM_PLAYERS ([]::Card list)) = NUM_PLAYERS" by simp
  from deal_rounds_mset[OF this dr]
  have m: "mset d1 + mset (concat hs) = mset create_deck" "length hs = NUM_PLAYERS"
    using d0 by simp_all
  have dd: "dealt s = ((d1, hs), g)" by (simp add: dealt_def sh dr)
  show ?thesis
  proof (cases "d1 = []")
    case True
    then show ?thesis using m by (simp add: deal_cards_eq dd held_cards_def)
  next
    case False
    then show ?thesis using m mset_butlast_last[OF False]
      by (simp add: deal_cards_eq dd held_cards_def) (metis union_mset_add_mset_left add.commute)
  qed
qed

lemma cards_partition_fresh_deal:
  assumes "st_cards_played_in_round s = zeros DECK_SIZE"
  shows "cards_partition (deal_cards s)"
proof -
  have z: "st_cards_played_in_round (deal_cards s) = zeros DECK_SIZE"
    using assms by (simp add: deal_cards_eq)
  have "slots (held_cards (deal_cards s)) = slots create_deck"
    unfolding slots_def using held_cards_deal_cards[of s] by simp
  then show ?thesis
    by (simp add: cards_partition_iff z zeros_def count_slots_create_deck)
qed

subsection \<open>Operations that leave the cards where they are\<close>

lemma keeps_refl: "keeps s s"
  by (simp add: keeps_def)

lemma keeps_trans: "keeps a b \<Longrightarrow> keeps b c \<Longrightarrow> keeps a c"
  by (simp add: keeps_def)

lemma same_table_refl: "same_table s s"
  by (simp add: same_table_def)

lemma same_table_trans: "same_table a b \<Longrightarrow> same_table b c \<Longrightarrow> same_table a c"
  by (simp add: same_table_def)

lemma same_table_inv:
  "same_table s s' \<Longrightarrow> keeps s s' \<Longrightarrow> table_inv s \<Longrightarrow> table_inv s'"
  by (simp add: same_table_def keeps_def table_inv_def wf_env_def cards_partition_def held_cards_def)

lemma process_bid_same:
  "process_bid s bid = Inr s' \<Longrightarrow> same_table s s' \<and> keeps s s'"
  by (auto simp: process_bid_def same_table_def keeps_def split: if_splits)

lemma update_valid_actions_same:
  "update_valid_actions s = Inr s' \<Longrightarrow> same_table s s' \<and> keeps s s'"
  using update_valid_actions_Inr[of s s'] by (auto simp: same_table_def keeps_def)

lemma bids_after_agent_same:
  "bids_after_agent is s = Inr s' \<Longrightarrow> same_table s s' \<and> keeps s s'"
proof (induction "is" arbitrary: s)
  case Nil
  then show ?case by (simp add: same_table_refl keeps_refl)
next
  case (Cons i rest)
  define vb where "vb = (if i = NUM_PLAYERS - 1
                            \<and> round_number s - sum_list (player_bids s) \<ge> 0
                            \<and> round_number s - sum_list (player_bids s) \<le> round_number s
                         then remove1 (round_number s - sum_list (player_bids s)) [0..round_number s]
                         else [0..round_number s])"
  from Cons.prems obtain bid g where
    c: "choice (np_random s) vb = Inr (bid, g)" and i: "i < length (player_bids s)"
    and r: "bids_after_agent rest (s\<lparr>np_random := g, player_bids := (player_bids s)[i := bid]\<rparr>) = Inr s'"
    unfolding vb_def by (auto simp: Let_def split: sum.splits if_splits)
  from Cons.IH[OF r] show ?case by (simp add: same_table_def keeps_def)
qed

lemma bids_before_agent_same:
  "bids_before_agent is s = Inr s' \<Longrightarrow> same_table s s' \<and> keeps s s'"
proof (induction "is" arbitrary: s)
  case Nil
  then show ?case by (simp add: same_table_refl keeps_refl)
next
  case (Cons i rest)
  from Cons.prems obtain bid g where
    r: "bids_before_agent rest (s\<lparr>np_random := g, player_bids := (player_bids s)[i := bid]\<rparr>) = Inr s'"
    by (auto split: sum.splits if_splits)
  from Cons.IH[OF r] show ?case by (simp add: same_table_def keeps_def)
qed

subsection \<open>Playing a card moves it from a hand to the round's pile\<close>

lemma mset_concat_replace:
  "p < length hs \<Longrightarrow> add_mset c (mset h') = mset (hs ! p) \<Longrightarrow>
     add_mset c (mset (concat (hs[p := h']))) = mset (concat hs)"
proof (induction hs arbitrary: p)
  case Nil
  then show ?case by simp
next
  case (Cons h hs)
  show ?case
  proof (cases p)
    case 0
    then show ?thesis using Cons.prems by simp
  next
    case (Suc q)
    then have "add_mset c (mset (concat (hs[q := h']))) = mset (concat hs)"
      using Cons.IH[of q] Cons.prems by simp
    then show ?thesis using Suc by simp
  qed
qed

lemma move_card:
  assumes wf: "wf_env s" and inv: "cards_partition s"
    and p: "p < length (hands s)"
    and h: "add_mset c (mset h') = mset (hands s ! p)"
    and hs: "hands s' = (hands s)[p := h']"
    and dk: "deck s' = deck s" and tr: "trump_card s' = trump_card s"
    and rd: "st_cards_played_in_round s' = vadd (st_cards_played_in_round s) (vec c)"
    and ks: "keeps s s'"
  shows "table_inv s'"
proof -
  have len: "length (st_cards_played_in_round s) = DECK_SIZE" using wf by (simp add: wf_env_def)
  have len': "length (st_cards_played_in_round s') = DECK_SIZE"
    unfolding rd by (simp add: length_vadd len length_vec)
  have "add_mset c (mset (held_cards s')) = mset (held_cards s)"
    unfolding held_cards_def hs dk tr using mset_concat_replace[OF p h] by simp
  then have sl: "slots (held_cards s) = add_mset (nat (card_index c)) (slots (held_cards s'))"
    unfolding slots_def by (metis image_mset_add_mset)
  have "\<forall>k<DECK_SIZE. int (count (slots (held_cards s')) k) + st_cards_played_in_round s' ! k = 1"
  proof (intro allI impI)
    fix k assume k: "k < DECK_SIZE"
    have "int (count (slots (held_cards s)) k) + st_cards_played_in_round s ! k = 1"
      using inv k by (simp add: cards_partition_iff[OF len])
    moreover have "st_cards_played_in_round s' ! k
        = st_cards_played_in_round s ! k + (if k = nat (card_index c) then 1 else 0)"
      unfolding rd using k by (simp add: nth_vadd len length_vec nth_vec)
    ultimately show "int (count (slots (held_cards s')) k) + st_cards_played_in_round s' ! k = 1"
      unfolding sl by (auto split: if_splits)
  qed
  then have "cards_partition s'" by (simp add: cards_partition_iff[OF len'])
  moreover have "list_all (\<lambda>x. x = 0 \<or> x = 1) (st_cards_played_in_round s')"
    unfolding list_all_length
  proof (intro allI impI)
    fix k assume "k < length (st_cards_played_in_round s')"
    then have k: "k < DECK_SIZE" using len' by simp
    have b: "st_cards_played_in_round s ! k = 0 \<or> st_cards_played_in_round s ! k = 1"
      using wf k len by (simp add: wf_env_def list_all_length)
    have e: "int (count (slots (held_cards s)) k) + st_cards_played_in_round s ! k = 1"
      using inv k by (simp add: cards_partition_iff[OF len])
    have n: "st_cards_played_in_round s' ! k
        = st_cards_played_in_round s ! k + (if k = nat (card_index c) then 1 else 0)"
      unfolding rd using k by (simp add: nth_vadd len length_vec nth_vec)
    show "st_cards_played_in_round s' ! k = 0 \<or> st_cards_played_in_round s' ! k = 1"
    proof (cases "k = nat (card_index c)")
      case True
      then have "1 \<le> count (slots (held_cards s)) k" unfolding sl by simp
      then have "st_cards_played_in_round s ! k = 0" using e b by arith
      then show ?thesis using n True by simp
    next
      case False
      then show ?thesis using n b by simp
    qed
  qed
  moreover have "wf_env s \<Longrightarrow> length (hands s') = NUM_PLAYERS
       \<and> round_starter s' < NUM_PLAYERS \<and> trick_leader s' < NUM_PLAYERS"
    using ks by (simp add: wf_env_def keeps_def hs)
  ultimately show ?thesis using wf len' by (simp add: table_inv_def wf_env_def)
qed

lemma simulate_play_keeps: "keeps s (simulate_play p s)"
  by (simp add: simulate_play_def keeps_def Let_def split: prod.splits)

lemma simulate_play_inv:
  assumes "table_inv s" "p < NUM_PLAYERS"
  shows "table_inv (simulate_play p s)"
proof -
  define vc where "vc = filter (\<lambda>crd. is_valid_play s crd p) (hands s ! p)"
  show ?thesis
  proof (cases "vc = []")
    case True
    then show ?thesis using assms(1) by (simp add: simulate_play_def vc_def)
  next
    case False
    obtain r g where d: "draw (np_random s) = (r, g)" by (cases "draw (np_random s)")
    define c where "c = vc ! (r mod length vc)"
    have "c \<in> set vc" unfolding c_def using False by simp
    then have cin: "c \<in> set (hands s ! p)" by (simp add: vc_def)
    have wf: "wf_env s" and inv: "cards_partition s" using assms(1) by (simp_all add: table_inv_def)
    have p: "p < length (hands s)" using wf assms(2) by (simp add: wf_env_def)
    have h: "add_mset c (mset (remove1 c (hands s ! p))) = mset (hands s ! p)"
      using cin by simp
    show ?thesis
    proof (rule move_card[OF wf inv p h _ _ _ _ simulate_play_keeps])
      show "hands (simulate_play p s) = (hands s)[p := remove1 c (hands s ! p)]"
        using False d by (simp add: simulate_play_def vc_def[symmetric] Let_def c_def)
      show "deck (simulate_play p s) = deck s"
        using False d by (simp add: simulate_play_def vc_def[symmetric] Let_def)
      show "trump_card (simulate_play p s) = trump_card s"
        using False d by (simp add: simulate_play_def vc_def[symmetric] Let_def)
      show "st_cards_played_in_round (simulate_play p s) = vadd (st_cards_played_in_round s) (vec c)"
        using False d by (simp add: simulate_play_def vc_def[symmetric] Let_def c_def)
    qed
  qed
qed

lemma find_idx_Some: "find_idx P xs = Some i \<Longrightarrow> i < length xs \<and> P (xs ! i)"
proof (induction xs arbitrary: i)
  case Nil
  then show ?case by simp
next
  case (Cons x xs)
  then show ?case by (cases "P x") auto
qed

lemma mset_remove_nth: "i < length h \<Longrightarrow> add_mset (h ! i) (mset (take i h @ drop (Suc i) h)) = mset h"
  by (metis id_take_nth_drop mset.simps(2) mset_append union_mset_add_mset_right)

lemma process_play_inv:
  assumes "process_play s action = Inr s'" "table_inv s"
  shows "table_inv s' \<and> keeps s s'"
proof -
  from assms(1) obtain i where
    ph: "phase s = 1" and fi: "vector_idx_to_hand_idx s action = Inr (Some i)"
    by (auto simp: process_play_def split: if_splits sum.splits option.splits)
  then obtain t where "find_idx (\<lambda>crd. csuit crd = csuit t \<and> cvalue crd = cvalue t) (hands s ! 0) = Some i"
    by (auto simp: vector_idx_to_hand_idx_def split: sum.splits)
  then have i: "i < length (hands s ! 0)" using find_idx_Some by fastforce
  define c where "c = hands s ! 0 ! i"
  define h' where "h' = take i (hands s ! 0) @ drop (Suc i) (hands s ! 0)"
  have wf: "wf_env s" and inv: "cards_partition s" using assms(2) by (simp_all add: table_inv_def)
  have p: "0 < length (hands s)" using wf by (simp add: wf_env_def NUM_PLAYERS_def)
  have h: "add_mset c (mset h') = mset (hands s ! 0)"
    unfolding c_def h'_def by (rule mset_remove_nth[OF i])
  have ks: "keeps s s'"
    using assms(1) ph fi by (auto simp: process_play_def keeps_def Let_def split: if_splits)
  have "table_inv s'"
  proof (rule move_card[OF wf inv p h _ _ _ _ ks])
    show "hands s' = (hands s)[0 := h']"
      using assms(1) ph fi by (auto simp: process_play_def Let_def h'_def split: if_splits)
    show "deck s' = deck s"
      using assms(1) ph fi by (auto simp: process_play_def Let_def split: if_splits)
    show "trump_card s' = trump_card s"
      using assms(1) ph fi by (auto simp: process_play_def Let_def split: if_splits)
    show "st_cards_played_in_round s' = vadd (st_cards_played_in_round s) (vec c)"
      using assms(1) ph fi by (auto simp: process_play_def Let_def c_def split: if_splits)
  qed
  then show ?thesis using ks by simp
qed

subsection \<open>Trick resolution and round close\<close>

lemma compare_loop_in:
  "compare_loop tr xs wc w \<in> insert w (snd ` set xs)"
proof (induction xs arbitrary: wc w)
  case Nil
  then show ?case by simp
next
  case (Cons x xs)
  obtain c p where x: "x = (c, p)" by (cases x)
  have a: "compare_loop tr xs wc w \<in> insert w (snd ` set xs)" by (rule Cons.IH)
  have b: "compare_loop tr xs c p \<in> insert p (snd ` set xs)" by (rule Cons.IH)
  show ?case unfolding x using a b by auto
qed

lemma cards_with_players_seats:
  "x \<in> set (cards_with_players s) \<Longrightarrow> snd x < NUM_PLAYERS"
  by (auto simp: cards_with_players_def NUM_PLAYERS_def)

lemma find_in_set: "find P xs = Some x \<Longrightarrow> x \<in> set xs"
  by (induction xs) (auto split: if_splits)

lemma evaluate_trick_seat:
  assumes "evaluate_trick s = Inr w" "trick_leader s < NUM_PLAYERS"
  shows "w < NUM_PLAYERS"
proof (cases "find (\<lambda>(crd, player). cvalue crd = WIZARD) (rev (cards_with_players s))")
  case (Some x)
  then have "x \<in> set (cards_with_players s)" using find_in_set by fastforce
  then have "snd x < NUM_PLAYERS" by (rule cards_with_players_seats)
  then show ?thesis using assms(1) Some by (cases x) (auto simp: evaluate_trick_def)
next
  case None
  show ?thesis
  proof (cases "list_all (\<lambda>(crd, _). cvalue crd = JESTER) (cards_with_players s)")
    case True
    then show ?thesis using assms None by (simp add: evaluate_trick_def)
  next
    case False
    then obtain wc p where f: "find (\<lambda>(crd, player). cvalue crd \<noteq> JESTER) (cards_with_players s) = Some (wc, p)"
      and w: "w = compare_loop (trump_card s) (cards_with_players s) wc p"
      using assms(1) None by (auto simp: evaluate_trick_def Let_def split: option.splits)
    have "(wc, p) \<in> set (cards_with_players s)" using f by (rule find_in_set)
    then have "p \<in> snd ` set (cards_with_players s)" by force
    then have "w \<in> snd ` set (cards_with_players s)"
      using compare_loop_in[of "trump_card s" "cards_with_players s" wc p] w by auto
    then show ?thesis using cards_with_players_seats by auto
  qed
qed

lemma finish_trick_inv:
  assumes "finish_trick s = Inr (s', r)" "table_inv s"
  shows "table_inv s' \<and> phase s' = phase s \<and> round_number s' = round_number s
         \<and> round_starter s' = round_starter s
         \<and> length (player_bids s') = length (player_bids s)"
proof -
  from assms(1) obtain w s1 where
    w: "evaluate_trick s = Inr w" and
    s1: "s1 = s\<lparr>player_tricks := (player_tricks s)[w := player_tricks s ! w + 1],
                  trick_leader := w,
                  position_in_trick := (4 - int w) mod 4,
                  cards_played_in_trick := [],
                  st_cards_played_in_trick := map (\<lambda>_. 0) (st_cards_played_in_trick s),
                  lead_suit := SuitIndex (int NUM_SUITS)\<rparr>" and
    u: "update_valid_actions s1 = Inr s'"
    by (auto simp: finish_trick_def Let_def split: sum.splits)
  have wf: "wf_env s" using assms(2) by (simp add: table_inv_def)
  have "w < NUM_PLAYERS" using evaluate_trick_seat[OF w] wf by (simp add: wf_env_def)
  then have "table_inv s1"
    using assms(2) by (simp add: s1 table_inv_def wf_env_def cards_partition_def held_cards_def)
  moreover have "same_table s1 s'" "keeps s1 s'" using update_valid_actions_same[OF u] by simp_all
  ultimately show ?thesis using same_table_inv by (auto simp: keeps_def s1)
qed

lemma score_loop_fields: "\<exists>ps. fst (score_loop is s r) = s\<lparr>player_scores := ps\<rparr>"
proof (induction "is" arbitrary: s r)
  case Nil
  have "fst (score_loop [] s r) = s\<lparr>player_scores := player_scores s\<rparr>" by simp
  then show ?case by blast
next
  case (Cons i rest)
  define sc where "sc = (if player_tricks s ! i = player_bids s ! i
                       then player_scores s ! i + (1 + 1 * player_bids s ! i)
                       else player_scores s ! i - \<bar>player_bids s ! i - player_tricks s ! i\<bar>)"
  define s1 where "s1 = s\<lparr>player_scores := (player_scores s)[i := sc]\<rparr>"
  define r' where "r' = (if i = 0 then real_of_int (sc - player_scores s ! i) else r)"
  have e: "score_loop (i # rest) s r = score_loop rest s1 r'"
    by (simp add: Let_def s1_def sc_def r'_def)
  obtain ps where "fst (score_loop rest s1 r') = s1\<lparr>player_scores := ps\<rparr>"
    using Cons.IH by blast
  then have "fst (score_loop (i # rest) s r) = s\<lparr>player_scores := ps\<rparr>"
    unfolding e by (simp add: s1_def)
  then show ?case by blast
qed

lemma finish_round_inv:
  assumes "finish_round s = Inr (s', r)" "wf_env s"
  shows "table_inv s' \<and> phase s' = 0 \<and> round_number s' = round_number s + 1
         \<and> round_starter s' = (round_starter s + 1) mod NUM_PLAYERS
         \<and> trick_leader s' = round_starter s'
         \<and> player_bids s' = map (\<lambda>_. 0) (player_bids s)"
proof -
  obtain ps where sl: "fst (score_loop [0..<NUM_PLAYERS] s 0) = s\<lparr>player_scores := ps\<rparr>"
    using score_loop_fields by blast
  define s1 where "s1 = s\<lparr>player_scores := ps\<rparr>"
  define s3 where "s3 = s1\<lparr>round_number := round_number s1 + 1,
                     phase := 0,
                     player_bids := map (\<lambda>_. 0) (player_bids s1),
                     player_tricks := map (\<lambda>_. 0) (player_tricks s1),
                     st_cards_played_in_round := map (\<lambda>_. 0) (st_cards_played_in_round s1),
                     round_starter := (round_starter s1 + 1) mod NUM_PLAYERS,
                     trick_leader := (round_starter s1 + 1) mod NUM_PLAYERS,
                     position_in_trick := (4 - int ((round_starter s1 + 1) mod NUM_PLAYERS)) mod 4\<rparr>"
  have u: "update_valid_actions (deal_cards s3) = Inr s'"
    using assms(1) sl unfolding finish_round_def s3_def s1_def
    by (auto simp: Let_def split: prod.splits sum.splits)
  have z: "st_cards_played_in_round s3 = zeros DECK_SIZE"
    using assms(2) by (simp add: s3_def s1_def wf_env_def zeros_def map_replicate_const)
  have cp: "cards_partition (deal_cards s3)" by (rule cards_partition_fresh_deal[OF z])
  have "wf_env (deal_cards s3)"
    using held_cards_deal_cards[of s3] z
    by (simp add: wf_env_def deal_cards_eq s3_def zeros_def NUM_PLAYERS_def list_all_length)
  then have "table_inv (deal_cards s3)" using cp by (simp add: table_inv_def)
  moreover have "same_table (deal_cards s3) s'" "keeps (deal_cards s3) s'"
    using update_valid_actions_same[OF u] by simp_all
  ultimately have "table_inv s'" using same_table_inv by blast
  moreover have "phase s' = 0 \<and> round_number s' = round_number s + 1
         \<and> round_starter s' = (round_starter s + 1) mod NUM_PLAYERS
         \<and> trick_leader s' = round_starter s'"
    using \<open>keeps (deal_cards s3) s'\<close> by (simp add: keeps_def deal_cards_eq s3_def s1_def)
  moreover have "player_bids s' = map (\<lambda>_. 0) (player_bids s)"
    using update_valid_actions_Inr[OF u] by (auto simp: deal_cards_eq s3_def s1_def)
  ultimately show ?thesis by simp
qed


subsection \<open>The opponents' loops\<close>


lemma get_next_player_seat: "get_next_player p < NUM_PLAYERS"
  by (simp add: get_next_player_def NUM_PLAYERS_def)

lemma plays_before_agent_inv:
  "p < NUM_PLAYERS \<Longrightarrow> table_inv s \<Longrightarrow>
     table_inv (plays_before_agent p s) \<and> keeps s (plays_before_agent p s)"
proof (induction p s rule: plays_before_agent.induct)
  case (1 p s)
  show ?case
  proof (cases "p = 0")
    case True
    then have "plays_before_agent p s = s"
      using plays_before_agent.simps[of p s] by (simp)
    then show ?thesis using "1.prems" by (simp add: keeps_refl)
  next
    case False
    have e: "plays_before_agent p s = plays_before_agent (get_next_player p) (simulate_play p s)"
      using plays_before_agent.simps[of p s] False by (simp)
    have i: "table_inv (simulate_play p s)" using "1.prems" by (simp add: simulate_play_inv)
    have "table_inv (plays_before_agent (get_next_player p) (simulate_play p s))
        \<and> keeps (simulate_play p s) (plays_before_agent (get_next_player p) (simulate_play p s))"
      using "1.IH"[OF False get_next_player_seat i] .
    then show ?thesis unfolding e using simulate_play_keeps[of s p] keeps_trans by blast
  qed
qed

lemma plays_after_agent_inv:
  "plays_after_agent p s = Some s' \<Longrightarrow>
     p < NUM_PLAYERS \<longrightarrow> table_inv s \<longrightarrow> table_inv s' \<and> keeps s s'"
proof (rule plays_after_agent.raw_induct
    [where P = "\<lambda>p s s'. p < NUM_PLAYERS \<longrightarrow> table_inv s \<longrightarrow> table_inv s' \<and> keeps s s'"],
    goal_cases)
  case (1 f p s y)
  show ?case
  proof (intro impI)
    assume p: "p < NUM_PLAYERS" and inv: "table_inv s"
    show "table_inv y \<and> keeps s y"
    proof (cases "p = trick_leader s")
      case True
      then have "y = s" using 1(3) by simp
      then show ?thesis using inv by (simp add: keeps_refl)
    next
      case False
      then have r: "f (get_next_player p) (simulate_play p s) = Some y" using 1(3) by simp
      have i: "table_inv (simulate_play p s)" using p inv by (simp add: simulate_play_inv)
      have "get_next_player p < NUM_PLAYERS \<longrightarrow> table_inv (simulate_play p s)
              \<longrightarrow> table_inv y \<and> keeps (simulate_play p s) y"
        using 1(2)[OF r] .
      then have "table_inv y \<and> keeps (simulate_play p s) y"
        using get_next_player_seat i by blast
      then show ?thesis using simulate_play_keeps[of s p] keeps_trans by blast
    qed
  qed
next
  case 2
  then show ?case .
qed


lemma plays_after_agent_returns:
  "(p + d) mod NUM_PLAYERS = trick_leader s \<Longrightarrow> p < NUM_PLAYERS
     \<Longrightarrow> \<exists>s'. plays_after_agent p s = Some s'"
proof (induction d arbitrary: p s)
  case 0
  then have "p = trick_leader s" by simp
  then show ?case by (subst plays_after_agent.simps) simp
next
  case (Suc d)
  show ?case
  proof (cases "p = trick_leader s")
    case True
    then show ?thesis by (subst plays_after_agent.simps) simp
  next
    case False
    have t: "trick_leader (simulate_play p s) = trick_leader s"
      using simulate_play_keeps[of s p] by (simp add: keeps_def)
    have "(get_next_player p + d) mod NUM_PLAYERS = (p + Suc d) mod NUM_PLAYERS"
      unfolding get_next_player_def by (simp add: mod_add_left_eq)
    then have "(get_next_player p + d) mod NUM_PLAYERS = trick_leader (simulate_play p s)"
      unfolding t using Suc.prems(1) by simp
    then obtain s' where "plays_after_agent (get_next_player p) (simulate_play p s) = Some s'"
      using Suc.IH get_next_player_seat by blast
    then show ?thesis using False by (subst plays_after_agent.simps) simp
  qed
qed

lemma plays_after_agent_total:
  assumes "trick_leader s < NUM_PLAYERS" "p < NUM_PLAYERS"
  shows "\<exists>s'. plays_after_agent p s = Some s'"
proof -
  have "(p + (trick_leader s + NUM_PLAYERS - p)) mod NUM_PLAYERS = trick_leader s"
    using assms by simp
  then show ?thesis using plays_after_agent_returns assms(2) by blast
qed


lemma play_until_agent_turn_inv:
  assumes "play_until_agent_turn s = Inr s'" "table_inv s"
  shows "table_inv s' \<and> keeps s s'"
proof (cases "phase s = 0")
  case True
  define b where "b = (if round_starter s \<noteq> 0
               then bids_before_agent [round_starter s..<NUM_PLAYERS] s else Inr s)"
  have pu: "play_until_agent_turn s = (case b of Inl e \<Rightarrow> Inl e | Inr s1 \<Rightarrow> update_valid_actions s1)"
    using True unfolding play_until_agent_turn_def b_def by (simp only: if_True refl)
  obtain s1 where b: "b = Inr s1" and u: "update_valid_actions s1 = Inr s'"
    using assms(1) unfolding pu by (cases b) simp_all
  have "same_table s s1 \<and> keeps s s1"
  proof (cases "round_starter s = 0")
    case True
    then have "s1 = s" using b unfolding b_def by simp
    then show ?thesis by (simp add: same_table_refl keeps_refl)
  next
    case False
    then have "bids_before_agent [round_starter s..<NUM_PLAYERS] s = Inr s1"
      using b unfolding b_def by (simp only: if_True not_False_eq_True)
    then show ?thesis by (rule bids_before_agent_same)
  qed
  moreover have "same_table s1 s' \<and> keeps s1 s'" using update_valid_actions_same[OF u] .
  ultimately have "same_table s s'" "keeps s s'"
    using same_table_trans[of s s1 s'] keeps_trans[of s s1 s'] by simp_all
  then show ?thesis using same_table_inv assms(2) by blast
next
  case False
  then have "s' = plays_before_agent (trick_leader s) s"
    using assms(1) by (simp add: play_until_agent_turn_def)
  moreover have "trick_leader s < NUM_PLAYERS" using assms(2) by (simp add: table_inv_def wf_env_def)
  ultimately show ?thesis using plays_before_agent_inv assms(2) by simp
qed


subsection \<open>The facade\<close>


lemma reset_inv:
  assumes "reset sd seed s = Inr s'" "round_starter s < NUM_PLAYERS"
  shows "table_inv s'"
proof -
  obtain v where v: "reset sd seed s = Inr ((deal_cards (reset_fields sd seed s))\<lparr>valid_actions := v\<rparr>)"
    using reset_eq by blast
  define s1 where "s1 = reset_fields sd seed s"
  have z: "st_cards_played_in_round s1 = zeros DECK_SIZE" by (simp add: s1_def reset_fields_def)
  have cp: "cards_partition (deal_cards s1)" by (rule cards_partition_fresh_deal[OF z])
  have "wf_env (deal_cards s1)"
    using held_cards_deal_cards[of s1] assms(2)
    by (simp add: wf_env_def deal_cards_eq s1_def reset_fields_def zeros_def list_all_length)
  then have "table_inv (deal_cards s1)" using cp by (simp add: table_inv_def)
  moreover have "s' = (deal_cards s1)\<lparr>valid_actions := v\<rparr>" using v assms(1) by (simp add: s1_def)
  ultimately show ?thesis
    by (simp add: table_inv_def wf_env_def cards_partition_def held_cards_def)
qed

lemma step_bidding_inv:
  assumes "step s action = Inr (s', r, d, t)" "table_inv s" "phase s = 0"
  shows "table_inv s'"
proof -
  from assms(1,3) obtain s1 s2 s3 where
    pb: "process_bid s action = Inr s1" and
    ba: "bids_after_agent
          (if round_starter s1 \<noteq> 0 then [1..<round_starter s1] else [1..<NUM_PLAYERS]) s1 = Inr s2" and
    uv: "update_valid_actions
           (s2\<lparr>phase := 1, trick_leader := round_starter s2,
               position_in_trick := (4 - int (round_starter s2)) mod 4\<rparr>) = Inr s3" and
    pu: "play_until_agent_turn s3 = Inr s'"
    unfolding step_def by (auto split: sum.splits)
  have a: "same_table s s1" "keeps s s1" using process_bid_same[OF pb] by simp_all
  have b: "same_table s1 s2" "keeps s1 s2" using bids_after_agent_same[OF ba] by simp_all
  have i2: "table_inv s2"
    using same_table_inv[OF b same_table_inv[OF a assms(2)]] .
  define s2' where "s2' = s2\<lparr>phase := 1, trick_leader := round_starter s2,
               position_in_trick := (4 - int (round_starter s2)) mod 4\<rparr>"
  have "table_inv s2'"
    using i2 by (simp add: s2'_def table_inv_def wf_env_def cards_partition_def held_cards_def)
  moreover have "same_table s2' s3" "keeps s2' s3"
    using update_valid_actions_same[OF uv[folded s2'_def]] by simp_all
  ultimately have "table_inv s3" using same_table_inv by blast
  then show ?thesis using play_until_agent_turn_inv[OF pu] by simp
qed

lemma step_playing_inv:
  assumes "step s action = Inr (s', r, d, t)" "table_inv s" "phase s \<noteq> 0"
  shows "table_inv s'"
proof -
  from assms(1,3) obtain s1 s2 s3 r3 where
    pp: "process_play s action = Inr s1" and
    pa: "plays_after_agent (get_next_player 0) s1 = Some s2" and
    ft: "finish_trick s2 = Inr (s3, r3)" and
    rest: "(if list_all (\<lambda>h. length h = 0) (hands s3) then
              (case finish_round s3 of
                 Inl e \<Rightarrow> Inl e
               | Inr (s4, reward') \<Rightarrow>
                  if round_number s4 > int MAX_ROUND then Inr (s4, reward', True, False)
                  else (case play_until_agent_turn s4 of
                          Inl e \<Rightarrow> Inl e
                        | Inr s5 \<Rightarrow> Inr (s5, reward', False, False)))
            else (case play_until_agent_turn s3 of
                    Inl e \<Rightarrow> Inl e
                  | Inr s4 \<Rightarrow> Inr (s4, r3, False, False))) = Inr (s', r, d, t)"
    unfolding step_def by (auto split: sum.splits option.splits)
  have i1: "table_inv s1" using process_play_inv[OF pp assms(2)] by simp
  have i2: "table_inv s2"
    using plays_after_agent_inv[OF pa] get_next_player_seat i1 by blast
  have i3: "table_inv s3" using finish_trick_inv[OF ft i2] by simp
  show ?thesis
  proof (cases "list_all (\<lambda>h. length h = 0) (hands s3)")
    case True
    then obtain s4 r4 where fr: "finish_round s3 = Inr (s4, r4)"
      and rest4: "(if round_number s4 > int MAX_ROUND then Inr (s4, r4, True, False)
                  else (case play_until_agent_turn s4 of
                          Inl e \<Rightarrow> Inl e
                        | Inr s5 \<Rightarrow> Inr (s5, r4, False, False))) = Inr (s', r, d, t)"
      using rest by (auto split: sum.splits)
    have i4: "table_inv s4" using finish_round_inv[OF fr] i3 by (simp add: table_inv_def)
    show ?thesis
    proof (cases "round_number s4 > int MAX_ROUND")
      case True
      then show ?thesis using rest4 i4 by simp
    next
      case False
      then obtain s5 where "play_until_agent_turn s4 = Inr s5" "s' = s5"
        using rest4 by (auto split: sum.splits)
      then show ?thesis using play_until_agent_turn_inv i4 by blast
    qed
  next
    case False
    then obtain s4 where "play_until_agent_turn s3 = Inr s4" "s' = s4"
      using rest by (auto split: sum.splits)
    then show ?thesis using play_until_agent_turn_inv i3 by blast
  qed
qed

lemma step_inv: "step s action = Inr (s', r, d, t) \<Longrightarrow> table_inv s \<Longrightarrow> table_inv s'"
  using step_bidding_inv step_playing_inv by blast

lemma reachable_inv: "reachable sd s \<Longrightarrow> table_inv s"
proof (induction rule: reachable.induct)
  case (constructed np py s)
  then show ?case using reset_inv[of sd None "fresh_env np py" s]
    by (simp add: init_env_def fresh_env_def NUM_PLAYERS_def)
next
  case (after_reset s seed s')
  then show ?case using reset_inv by (simp add: table_inv_def wf_env_def)
next
  case (after_step s action s' reward dn truncated)
  then show ?case using step_inv by blast
next
  case (other_draws s g)
  then show ?case
    by (simp add: table_inv_def wf_env_def cards_partition_def held_cards_def)
qed


section \<open>A step after the end of the game\<close>


lemma last_trick_done:
  "\<exists>s r. step last_trick_env 0 = Inr (s, r, True, False) \<and> phase s = 0 \<and> round_number s = 16
        \<and> player_bids s = [0, 0, 0, 0] \<and> round_starter s = 3"
  by (simp add: last_trick_env_def engine_defs finish_round_def deal_cards_eq Let_def
      MAX_ROUND_def upt_rec upto_rec1)

lemma length_upto: "length [0..n] = nat (n + 1)"
proof (cases "0 \<le> n")
  case True
  have "length [0..int k] = Suc k" for k
    by (induction k) (simp_all add: upto_rec2)
  from this[of "nat n"] True show ?thesis by simp
next
  case False
  then show ?thesis by (simp add: upto.simps)
qed

lemma bids_after_agent_Cons:
  "bids_after_agent (i # rest) s =
     (case choice (np_random s) (hook_bids i s) of
        Inl e \<Rightarrow> Inl e
      | Inr (bid, g) \<Rightarrow>
          if i < length (player_bids s)
          then bids_after_agent rest (s\<lparr>np_random := g, player_bids := (player_bids s)[i := bid]\<rparr>)
          else Inl IndexError)"
  by (simp add: Let_def hook_bids_def)

lemma hook_bids_nonempty: "1 \<le> round_number s \<Longrightarrow> hook_bids i s \<noteq> []"
proof -
  assume r: "1 \<le> round_number s"
  have l: "2 \<le> length [0..round_number s]" using r by (simp add: length_upto)
  have "length (remove1 x [0..round_number s]) \<ge> 1" for x
    using l by (simp add: length_remove1) arith
  then have "1 \<le> length (hook_bids i s)" using l by (simp add: hook_bids_def)
  then show ?thesis by auto
qed

lemma bids_after_agent_returns:
  "1 \<le> round_number s \<Longrightarrow> \<forall>i\<in>set is. i < length (player_bids s)
     \<Longrightarrow> \<exists>s'. bids_after_agent is s = Inr s'"
proof (induction "is" arbitrary: s)
  case Nil
  then show ?case by simp
next
  case (Cons i rest)
  have ne: "hook_bids i s \<noteq> []" using Cons.prems(1) by (rule hook_bids_nonempty)
  obtain r g where d: "draw (np_random s) = (r, g)" by (cases "draw (np_random s)")
  define s1 where "s1 = s\<lparr>np_random := g,
      player_bids := (player_bids s)[i := hook_bids i s ! (r mod length (hook_bids i s))]\<rparr>"
  have i: "i < length (player_bids s)" using Cons.prems(2) by simp
  have e: "bids_after_agent (i # rest) s = bids_after_agent rest s1"
    unfolding bids_after_agent_Cons using ne d i by (simp add: choice_def s1_def)
  have "1 \<le> round_number s1" "\<forall>j\<in>set rest. j < length (player_bids s1)"
    using Cons.prems by (simp_all add: s1_def)
  from Cons.IH[OF this] show ?case unfolding e .
qed

lemma step_bidding_returns:
  assumes "phase s = 0" "1 \<le> round_number s" "bid \<in> set (get_valid_bids s)"
    "length (player_bids s) = NUM_PLAYERS" "round_starter s < NUM_PLAYERS"
  shows "\<exists>s'. step s bid = Inr (s', 0, False, False) \<and> phase s' = 1
              \<and> round_number s' = round_number s"
proof -
  define s1 where "s1 = s\<lparr>player_bids := (player_bids s)[0 := bid]\<rparr>"
  have pb: "process_bid s bid = Inr s1" using assms(3) by (simp add: process_bid_def s1_def)
  define seats where "seats = (if round_starter s1 \<noteq> 0 then [1..<round_starter s1] else [1..<NUM_PLAYERS])"
  have "\<forall>i\<in>set seats. i < length (player_bids s1)"
    using assms(4,5) by (auto simp: seats_def s1_def)
  moreover have "1 \<le> round_number s1" using assms(2) by (simp add: s1_def)
  ultimately obtain s2 where ba': "bids_after_agent seats s1 = Inr s2"
    using bids_after_agent_returns by blast
  have ba: "bids_after_agent
      (if round_starter s1 \<noteq> 0 then [1..<round_starter s1] else [1..<NUM_PLAYERS]) s1 = Inr s2"
    using ba' unfolding seats_def .
  have k2: "keeps s1 s2" using bids_after_agent_same[OF ba'] by simp
  define s2' where "s2' = s2\<lparr>phase := 1, trick_leader := round_starter s2,
               position_in_trick := (4 - int (round_starter s2)) mod 4\<rparr>"
  obtain v where uv': "update_valid_actions s2' = Inr (s2'\<lparr>valid_actions := v\<rparr>)"
    using update_valid_actions_playing[of s2'] by (auto simp: s2'_def)
  define s3 where "s3 = s2'\<lparr>valid_actions := v\<rparr>"
  have uv: "update_valid_actions (s2\<lparr>phase := 1, trick_leader := round_starter s2,
               position_in_trick := (4 - int (round_starter s2)) mod 4\<rparr>) = Inr s3"
    using uv' unfolding s3_def s2'_def .
  have p3: "phase s3 = 1" "round_number s3 = round_number s"
    using k2 by (simp_all add: s3_def s2'_def keeps_def s1_def)
  have pu: "play_until_agent_turn s3 = Inr (plays_before_agent (trick_leader s3) s3)"
    using p3 by (simp add: play_until_agent_turn_def)
  have st: "step s bid = Inr (plays_before_agent (trick_leader s3) s3, 0, False, False)"
    unfolding step_def
    by (simp only: assms(1) pb ba uv pu sum.case if_True simp_thms)
  have "phase (plays_before_agent p x) = phase x \<and> round_number (plays_before_agent p x) = round_number x"
    for p x
  proof (induction p x rule: plays_before_agent.induct)
    case (1 p x)
    show ?case
    proof (cases "p = 0")
      case True
      then show ?thesis by (subst (1 2) plays_before_agent.simps) simp
    next
      case False
      have "phase (simulate_play p x) = phase x" "round_number (simulate_play p x) = round_number x"
        using simulate_play_keeps[of x p] by (simp_all add: keeps_def)
      then show ?thesis using "1.IH"[OF False] False
        by (subst (1 2) plays_before_agent.simps) simp
    qed
  qed
  then show ?thesis using st p3 by simp
qed

lemma get_valid_bids_no_bids:
  "filter (\<lambda>b. b \<noteq> 0) (player_bids s) = [] \<Longrightarrow> get_valid_bids s = [0..round_number s]"
  by (simp add: get_valid_bids_def NUM_PLAYERS_def)

text \<open>Claim C8, as stated, fails on the code. The agent plays the last card of round 15;
  \<open>step\<close> resolves the trick, closes the round and returns \<open>done = True\<close> with
  \<open>round_number = 16 > MAX_ROUND\<close>. A further \<open>step\<close> with the bid 0 raises nothing: it
  returns with \<open>done = False\<close> in the Playing phase.\<close>

theorem step_after_done_no_error:
  "(case step last_trick_env 0 of
      Inl e \<Rightarrow> False
    | Inr (s, r, d, t) \<Rightarrow>
        d \<and> int MAX_ROUND < round_number s
        \<and> (case step s 0 of
              Inl e \<Rightarrow> False
            | Inr (s', r', d', t') \<Rightarrow> \<not> d' \<and> phase s' = 1 \<and> round_number s' = 16))"
proof -
  obtain s r where a: "step last_trick_env 0 = Inr (s, r, True, False)" "phase s = 0"
    "round_number s = 16" "player_bids s = [0, 0, 0, 0]" "round_starter s = 3"
    using last_trick_done by blast
  have v: "get_valid_bids s = [0..16]"
    using get_valid_bids_no_bids[of s] a(3,4) by simp
  have "0 \<in> set (get_valid_bids s)" unfolding v by simp
  then obtain s' where b: "step s 0 = Inr (s', 0, False, False)" "phase s' = 1"
    "round_number s' = round_number s"
    using step_bidding_returns[of s 0] a by (auto simp: NUM_PLAYERS_def)
  show ?thesis using a b by (simp add: MAX_ROUND_def DECK_SIZE_def NUM_PLAYERS_def)
qed

text \<open>Claim C8, amended. \<open>step\<close> has no guard for a finished game. In a state as
  \<open>done = True\<close> leaves it (Bidding phase, \<open>round_number > MAX_ROUND\<close>, four bid slots, a
  seat as round starter), a bid from the legal set is accepted: \<open>step\<close> returns with
  reward 0 and \<open>done = False\<close>, and the engine is in the Playing phase of that further
  round. A bid outside the legal set fails with the invalid-bid error, as in any round.\<close>

theorem step_after_game_over_continues:
  assumes "phase s = 0" "int MAX_ROUND < round_number s"
    "length (player_bids s) = NUM_PLAYERS" "round_starter s < NUM_PLAYERS"
  shows "(bid \<in> set (get_valid_bids s) \<longrightarrow>
            (\<exists>s'. step s bid = Inr (s', 0, False, False) \<and> phase s' = 1
                  \<and> round_number s' = round_number s))
       \<and> (bid \<notin> set (get_valid_bids s) \<longrightarrow> step s bid = Inl InvalidBid)"
proof (intro conjI impI)
  assume "bid \<in> set (get_valid_bids s)"
  moreover have "1 \<le> round_number s" using assms(2) by simp
  ultimately show "\<exists>s'. step s bid = Inr (s', 0, False, False) \<and> phase s' = 1
                  \<and> round_number s' = round_number s"
    using step_bidding_returns assms by blast
next
  assume "bid \<notin> set (get_valid_bids s)"
  then show "step s bid = Inl InvalidBid"
    using assms(1) by (simp add: step_def process_bid_def)
qed

theorem step_after_game_over_continues_witness:
  "phase (base_env\<lparr>round_number := 16, round_starter := 3\<rparr>) = 0
   \<and> int MAX_ROUND < round_number (base_env\<lparr>round_number := 16, round_starter := 3\<rparr>)
   \<and> length (player_bids (base_env\<lparr>round_number := 16, round_starter := 3\<rparr>)) = NUM_PLAYERS
   \<and> round_starter (base_env\<lparr>round_number := 16, round_starter := 3\<rparr>) < NUM_PLAYERS
   \<and> 0 \<in> set (get_valid_bids (base_env\<lparr>round_number := 16, round_starter := 3\<rparr>))
   \<and> 17 \<notin> set (get_valid_bids (base_env\<lparr>round_number := 16, round_starter := 3\<rparr>))
   \<and> (case step (base_env\<lparr>round_number := 16, round_starter := 3\<rparr>) 0 of
         Inl e \<Rightarrow> False
       | Inr (s', r, d, t) \<Rightarrow> \<not> d \<and> phase s' = 1 \<and> round_number s' = 16)
   \<and> step (base_env\<lparr>round_number := 16, round_starter := 3\<rparr>) 17 = Inl InvalidBid"
proof -
  define s0 where "s0 = base_env\<lparr>round_number := 16, round_starter := 3\<rparr>"
  have h: "phase s0 = 0" "int MAX_ROUND < round_number s0"
    "length (player_bids s0) = NUM_PLAYERS" "round_starter s0 < NUM_PLAYERS"
    by (simp_all add: s0_def base_env_def MAX_ROUND_def DECK_SIZE_def NUM_PLAYERS_def)
  have v: "get_valid_bids s0 = [0..16]"
    using get_valid_bids_no_bids[of s0] by (simp add: s0_def base_env_def)
  have m: "0 \<in> set (get_valid_bids s0)" "17 \<notin> set (get_valid_bids s0)" unfolding v by simp_all
  from step_after_game_over_continues[OF h, of 0] m(1)
  obtain s' where a: "step s0 0 = Inr (s', 0, False, False)" "phase s' = 1"
    "round_number s' = round_number s0" by blast
  from step_after_game_over_continues[OF h, of 17] m(2)
  have b: "step s0 17 = Inl InvalidBid" by blast
  have "round_number s0 = 16" by (simp add: s0_def)
  then show ?thesis using h m a b unfolding s0_def[symmetric] by simp
qed

section \<open>The deck partition in every reachable state\<close>

lemma table_inv_readable:
  assumes "table_inv s"
  shows "distinct (held_cards s)
       \<and> (\<forall>c. (c \<in> set (held_cards s)) = (st_cards_played_in_round s ! nat (card_index c) = 0))
       \<and> (\<forall>c. (c \<notin> set (held_cards s)) = (st_cards_played_in_round s ! nat (card_index c) = 1))"
proof -
  have len: "length (st_cards_played_in_round s) = DECK_SIZE"
    and bits: "list_all (\<lambda>x. x = 0 \<or> x = 1) (st_cards_played_in_round s)"
    and cp: "cards_partition s"
    using assms by (simp_all add: table_inv_def wf_env_def)
  have key: "int (count (mset (held_cards s)) c) + st_cards_played_in_round s ! nat (card_index c) = 1
      \<and> (st_cards_played_in_round s ! nat (card_index c) = 0
          \<or> st_cards_played_in_round s ! nat (card_index c) = 1)" for c
  proof -
    have k: "nat (card_index c) < DECK_SIZE"
      using card_index_range[of c] unfolding DECK_SIZE_def by arith
    have "int (count (slots (held_cards s)) (nat (card_index c)))
            + st_cards_played_in_round s ! nat (card_index c) = 1"
      using cp k by (simp add: cards_partition_iff[OF len])
    moreover have "st_cards_played_in_round s ! nat (card_index c) = 0
          \<or> st_cards_played_in_round s ! nat (card_index c) = 1"
      using bits k len by (simp add: list_all_length)
    ultimately show ?thesis by (simp add: count_slots)
  qed
  have le: "count (mset (held_cards s)) c \<le> 1" for c using key[of c] by arith
  have d: "distinct (held_cards s)"
    unfolding distinct_count_atmost_1
    by (metis count_greater_zero_iff count_mset_0_iff le le_neq_implies_less less_one not_gr_zero
        set_mset_mset)
  have a: "(c \<in> set (held_cards s)) = (st_cards_played_in_round s ! nat (card_index c) = 0)" for c
  proof
    assume "c \<in> set (held_cards s)"
    then have "count (mset (held_cards s)) c \<noteq> 0" by (simp add: count_mset_0_iff)
    then show "st_cards_played_in_round s ! nat (card_index c) = 0" using key[of c] by arith
  next
    assume "st_cards_played_in_round s ! nat (card_index c) = 0"
    then have "count (mset (held_cards s)) c \<noteq> 0" using key[of c] by simp
    then show "c \<in> set (held_cards s)" by (simp add: count_mset_0_iff)
  qed
  have b: "(c \<notin> set (held_cards s)) = (st_cards_played_in_round s ! nat (card_index c) = 1)" for c
    using a[of c] key[of c] by auto
  show ?thesis using d a b by blast
qed

text \<open>Claim C5. In every state reachable from the constructor by \<open>reset\<close> and \<open>step\<close>
  (whatever else draws from the \<open>random\<close> module in between), the one-hot vectors of
  the cards still held (undealt deck, the four hands, the trump card) and the vector of
  the cards played in the round add up to 1 in each of the 60 slots. So no card is held
  twice, and a card is held exactly when its slot in \<open>cards_played_in_round\<close> is 0 and
  played exactly when it is 1. The lemmas \<open>cards_partition_fresh_deal\<close>,
  \<open>process_bid_same\<close>, \<open>process_play_inv\<close>, \<open>simulate_play_inv\<close>, \<open>finish_trick_inv\<close> and
  \<open>finish_round_inv\<close> show it for the single operations.\<close>

theorem deck_partition_invariant:
  "reachable sd s \<Longrightarrow>
     cards_partition s
   \<and> length (st_cards_played_in_round s) = DECK_SIZE
   \<and> distinct (held_cards s)
   \<and> (\<forall>c. (c \<in> set (held_cards s)) = (st_cards_played_in_round s ! nat (card_index c) = 0))
   \<and> (\<forall>c. (c \<notin> set (held_cards s)) = (st_cards_played_in_round s ! nat (card_index c) = 1))"
proof -
  assume "reachable sd s"
  then have t: "table_inv s" by (rule reachable_inv)
  then show ?thesis using table_inv_readable[OF t] unfolding table_inv_def wf_env_def by blast
qed

theorem deck_partition_invariant_witness:
  "(case init_env (\<lambda>k. const_rng (nat k)) (const_rng 0) keep_rng of
      Inl e \<Rightarrow> False
    | Inr s \<Rightarrow>
        reachable (\<lambda>k. const_rng (nat k)) s \<and> cards_partition s \<and> distinct (held_cards s)
        \<and> (case step s 0 of
              Inl e \<Rightarrow> False
            | Inr (s', r, d, t) \<Rightarrow>
                reachable (\<lambda>k. const_rng (nat k)) s' \<and> cards_partition s'
                \<and> distinct (held_cards s')))"
proof -
  define sd :: "int \<Rightarrow> rng" where "sd = (\<lambda>k. const_rng (nat k))"
  obtain s where s: "init_env sd (const_rng 0) keep_rng = Inr s" "round_starter s = 0"
    "round_number s = 1" "phase s = 0" "player_bids s = zeros NUM_PLAYERS"
    using reset_round_starter[of sd None "fresh_env (const_rng 0) keep_rng"]
    unfolding init_env_eq by (auto simp: fresh_env_def)
  have r: "reachable sd s" using s(1) by (rule reachable.constructed)
  have p: "cards_partition s \<and> distinct (held_cards s)"
    using deck_partition_invariant[OF r] by simp
  have "get_valid_bids s = [0..1]"
    using get_valid_bids_no_bids[of s] s(3,5) by (simp add: zeros_def)
  then have "0 \<in> set (get_valid_bids s)" by simp
  then obtain s' where s': "step s 0 = Inr (s', 0, False, False)"
    using step_bidding_returns[of s 0] s by (auto simp: zeros_def NUM_PLAYERS_def)
  have r': "reachable sd s'" using r s' by (rule reachable.after_step)
  have p': "cards_partition s' \<and> distinct (held_cards s')"
    using deck_partition_invariant[OF r'] by simp
  show ?thesis using s(1) r p s' r' p' unfolding sd_def by simp
qed

section \<open>What the resolvers do check\<close>


lemma find_idx_None: "find_idx P xs = None \<longleftrightarrow> (\<forall>x\<in>set xs. \<not> P x)"
  by (induction xs) auto

text \<open>What \<open>_process_play\<close> does check: in the Playing phase it fails exactly when the
  action decodes to no card or to a card that is not in the agent's hand.\<close>

lemma process_play_fails_iff:
  assumes "phase s = 1"
  shows "(\<exists>e. process_play s action = Inl e)
           \<longleftrightarrow> (\<forall>c. from_vector_idx action = Inr c \<longrightarrow> c \<notin> set (hands s ! 0))"
proof (cases "from_vector_idx action")
  case (Inl e)
  then show ?thesis using assms by (simp add: process_play_def vector_idx_to_hand_idx_def)
next
  case (Inr t)
  have eq: "(\<lambda>crd. csuit crd = csuit t \<and> cvalue crd = cvalue t) = (\<lambda>crd. crd = t)"
    by (auto intro: Card.expand)
  show ?thesis
  proof (cases "find_idx (\<lambda>crd. crd = t) (hands s ! 0)")
    case None
    then have "t \<notin> set (hands s ! 0)" by (auto simp: find_idx_None)
    then show ?thesis using assms Inr None
      by (simp add: process_play_def vector_idx_to_hand_idx_def eq)
  next
    case (Some i)
    then have "t \<in> set (hands s ! 0)" using find_idx_Some[OF Some] by auto
    then show ?thesis using assms Inr Some
      by (simp add: process_play_def vector_idx_to_hand_idx_def eq Let_def)
  qed
qed

text \<open>The size of the set \<open>_get_valid_bids\<close> returns: one value is missing exactly when
  three bids are non-zero and the forbidden value lies in the range.\<close>

lemma length_get_valid_bids:
  assumes "0 \<le> round_number s"
  shows "length (get_valid_bids s) =
           (if length (filter (\<lambda>b. b \<noteq> 0) (player_bids s)) = NUM_PLAYERS - 1
               \<and> 0 \<le> round_number s - sum_list (player_bids s)
               \<and> round_number s - sum_list (player_bids s) \<le> round_number s
            then nat (round_number s) else nat (round_number s) + 1)"
proof -
  have l: "length [0..round_number s] = nat (round_number s) + 1"
    using assms by (simp add: length_upto nat_add_distrib)
  have "x \<in> set [0..round_number s] \<Longrightarrow>
          length (remove1 x [0..round_number s]) = nat (round_number s)" for x
    using l by (simp add: length_remove1)
  then show ?thesis using l by (simp add: get_valid_bids_def Let_def)
qed


end
